theory Spec2Isabelle
  imports Main "HOL-Library.FSet" "HOL-Library.Multiset"
begin


section \<open>The maxclique application: bit sets, colour ordering and the node generator\<close>

subsection \<open>Bit sets and bit graphs\<close>

text \<open>
  Modelled from the spec: \<^verbatim>\<open>BitSet.hpp\<close> and \<^verbatim>\<open>BitGraph.hpp\<close> are included by
  \<^verbatim>\<open>apps/bnb/maxclique/main.cpp\<close> but are not among the sources. A \<^verbatim>\<open>BitSet<NWORDS>\<close>
  is a finite set of vertex numbers, a \<^verbatim>\<open>BitGraph<NWORDS>\<close> gives the adjacency row of every
  vertex. The operations carry the names the application calls them by. The arrays
  \<^verbatim>\<open>std::array<unsigned, NWORDS * bits_per_word>\<close> have as many entries as a bit set has
  bits; \<^verbatim>\<open>NWORDS\<close> is 8 in main.cpp and the words are 64 bits wide.
\<close>

type_synonym BitSet = "nat fset"
type_synonym BitGraph = "nat \<Rightarrow> nat fset"

definition NWORDS :: nat where
  "NWORDS = 8"

definition bits_per_word :: nat where
  "bits_per_word = 64"

definition array_size :: nat where
  "array_size = NWORDS * bits_per_word"

definition empty_bits :: "BitSet \<Rightarrow> bool" where
  "empty_bits s = (s = {||})"

definition unset :: "nat \<Rightarrow> BitSet \<Rightarrow> BitSet" where
  "unset a s = s |-| {|a|}"

definition first_set_bit :: "BitSet \<Rightarrow> nat" where
  "first_set_bit s = fMin s"

definition popcount :: "BitSet \<Rightarrow> nat" where
  "popcount s = fcard s"

definition intersect_with_row :: "BitGraph \<Rightarrow> nat \<Rightarrow> BitSet \<Rightarrow> BitSet" where
  "intersect_with_row graph a s = s |\<inter>| graph a"

definition intersect_with_row_complement :: "BitGraph \<Rightarrow> nat \<Rightarrow> BitSet \<Rightarrow> BitSet" where
  "intersect_with_row_complement graph a s = s |-| graph a"

text \<open>
  An array is a map from index to entry; the entries that were never written hold whatever
  the map held before. Reading with an index outside \<open>0 ..< array_size\<close> is undefined
  behaviour in the program and \<open>None\<close> here.
\<close>

definition arr_read :: "(nat \<Rightarrow> nat) \<Rightarrow> int \<Rightarrow> nat option" where
  "arr_read a i = (if 0 \<le> i \<and> i < int array_size then Some (a (nat i)) else None)"

subsection \<open>colour_class_order\<close>

text \<open>
  The inner loop of \<^verbatim>\<open>colour_class_order\<close>:
  \<^verbatim>\<open>while (! q.empty()) { int v = q.first_set_bit(); p_left.unset(v); q.unset(v);
     graph.intersect_with_row_complement(v, q); p_bounds[i] = colour; p_order[i] = v; ++i; }\<close>
  The state is \<open>(p_left, i, p_order, p_bounds)\<close>.
\<close>

function colour_inner ::
  "BitGraph \<Rightarrow> nat \<Rightarrow> BitSet \<Rightarrow> BitSet \<Rightarrow> nat \<Rightarrow> (nat \<Rightarrow> nat) \<Rightarrow> (nat \<Rightarrow> nat)
    \<Rightarrow> BitSet \<times> nat \<times> (nat \<Rightarrow> nat) \<times> (nat \<Rightarrow> nat)" where
  "colour_inner graph colour q p_left i p_order p_bounds =
     (if \<not> empty_bits q then
        (let v = first_set_bit q in
         colour_inner graph colour
           (intersect_with_row_complement graph v (unset v q))
           (unset v p_left) (i + 1) (p_order(i := v)) (p_bounds(i := colour)))
      else (p_left, i, p_order, p_bounds))"
  by pat_completeness auto
termination
proof (relation "measure (\<lambda>(graph, colour, q, p_left, i, p_order, p_bounds). fcard q)")
  show "wf (measure (\<lambda>(graph, colour, q, p_left, i, p_order, p_bounds). fcard q))"
    by simp
next
  fix graph :: BitGraph and colour :: nat and q p_left :: BitSet and i :: nat
    and p_order p_bounds :: "nat \<Rightarrow> nat" and x :: nat
  assume ne: "\<not> empty_bits q" and x: "x = first_set_bit q"
  have "x |\<in>| q"
    using ne x by (simp add: empty_bits_def first_set_bit_def)
  then have "fcard (q |-| {|x|}) < fcard q"
    by (rule fcard_fminus1_less)
  moreover have "fcard ((q |-| {|x|}) |-| graph x) \<le> fcard (q |-| {|x|})"
    by (rule fcard_mono) auto
  ultimately show
    "((graph, colour, intersect_with_row_complement graph x (unset x q), unset x p_left,
       i + 1, p_order(i := x), p_bounds(i := colour)),
      (graph, colour, q, p_left, i, p_order, p_bounds))
     \<in> measure (\<lambda>(graph, colour, q, p_left, i, p_order, p_bounds). fcard q)"
    by (simp add: intersect_with_row_complement_def unset_def)
qed

declare colour_inner.simps [simp del]

lemma colour_inner_unfold:
  "\<not> empty_bits q \<Longrightarrow>
   colour_inner graph colour q p_left i p_order p_bounds =
   colour_inner graph colour
     (intersect_with_row_complement graph (first_set_bit q) (unset (first_set_bit q) q))
     (unset (first_set_bit q) p_left) (i + 1) (p_order(i := first_set_bit q))
     (p_bounds(i := colour))"
  by (subst colour_inner.simps) (simp add: Let_def)

lemma colour_inner_done:
  "empty_bits q \<Longrightarrow>
   colour_inner graph colour q p_left i p_order p_bounds = (p_left, i, p_order, p_bounds)"
  by (subst colour_inner.simps) simp

lemma colour_inner_p_left_le:
  "fcard (fst (colour_inner graph colour q p_left i p_order p_bounds)) \<le> fcard p_left"
proof (induction graph colour q p_left i p_order p_bounds rule: colour_inner.induct)
  case (1 graph colour q p_left i p_order p_bounds)
  show ?case
  proof (cases "empty_bits q")
    case True
    then show ?thesis by (simp add: colour_inner_done)
  next
    case False
    have "fcard (unset (first_set_bit q) p_left) \<le> fcard p_left"
      unfolding unset_def by (rule fcard_mono) auto
    with "1.IH" [OF False refl] show ?thesis
      unfolding colour_inner_unfold [OF False] by (rule order_trans)
  qed
qed

lemma colour_inner_p_left_less:
  assumes "\<not> empty_bits q" and "q |\<subseteq>| p_left"
  shows "fcard (fst (colour_inner graph colour q p_left i p_order p_bounds)) < fcard p_left"
proof -
  let ?v = "first_set_bit q"
  have "?v |\<in>| q"
    using assms(1) by (simp add: empty_bits_def first_set_bit_def)
  with assms(2) have "?v |\<in>| p_left" by auto
  then have "fcard (unset ?v p_left) < fcard p_left"
    unfolding unset_def by (rule fcard_fminus1_less)
  moreover have
    "fcard (fst (colour_inner graph colour (intersect_with_row_complement graph ?v (unset ?v q))
        (unset ?v p_left) (i + 1) (p_order(i := ?v)) (p_bounds(i := colour))))
      \<le> fcard (unset ?v p_left)"
    by (rule colour_inner_p_left_le)
  ultimately show ?thesis
    unfolding colour_inner_unfold [OF assms(1)] by linarith
qed

text \<open>
  The outer loop:
  \<^verbatim>\<open>while (! p_left.empty()) { ++colour; BitSet q = p_left; <inner loop> }\<close>
  It returns the two arrays, which the program passes by reference.
\<close>

function colour_outer ::
  "BitGraph \<Rightarrow> BitSet \<Rightarrow> nat \<Rightarrow> nat \<Rightarrow> (nat \<Rightarrow> nat) \<Rightarrow> (nat \<Rightarrow> nat)
    \<Rightarrow> (nat \<Rightarrow> nat) \<times> (nat \<Rightarrow> nat)" where
  "colour_outer graph p_left colour i p_order p_bounds =
     (if \<not> empty_bits p_left then
        (case colour_inner graph (colour + 1) p_left p_left i p_order p_bounds of
           (p_left', i', p_order', p_bounds') \<Rightarrow>
             colour_outer graph p_left' (colour + 1) i' p_order' p_bounds')
      else (p_order, p_bounds))"
  by pat_completeness auto
termination
proof (relation "measure (\<lambda>(graph, p_left, colour, i, p_order, p_bounds). fcard p_left)",
    goal_cases)
  case 1
  show ?case by simp
next
  case (2 graph p_left colour i p_order p_bounds x y xa ya xb yb)
  from 2(2) have "x = fst (colour_inner graph (colour + 1) p_left p_left i p_order p_bounds)"
    by (metis fst_conv)
  with colour_inner_p_left_less [OF 2(1), of p_left graph "colour + 1" i p_order p_bounds]
  show ?case by simp
qed

text \<open>
  \<^verbatim>\<open>colour_class_order(graph, p, p_order, p_bounds)\<close>: \<^verbatim>\<open>p_left = p; colour = 0; i = 0\<close>,
  then the outer loop.
\<close>

definition colour_class_order ::
  "BitGraph \<Rightarrow> BitSet \<Rightarrow> (nat \<Rightarrow> nat) \<Rightarrow> (nat \<Rightarrow> nat) \<Rightarrow> (nat \<Rightarrow> nat) \<times> (nat \<Rightarrow> nat)" where
  "colour_class_order graph p p_order p_bounds = colour_outer graph p 0 0 p_order p_bounds"

declare colour_outer.simps [simp del]

subsection \<open>MCSol, MCNode and GenNode\<close>

text \<open>
  \<^verbatim>\<open>struct MCSol { std::vector<int> members; int colours; }\<close> and
  \<^verbatim>\<open>struct MCNode { MCSol sol; int size; BitSet<NWORDS> remaining; }\<close>. The field
  \<^verbatim>\<open>size\<close> is \<open>node_size\<close> here. Vertex numbers and colours stay below the array
  size, so the conversions between \<^verbatim>\<open>unsigned\<close> and \<^verbatim>\<open>int\<close> change no value.
\<close>

record MCSol =
  members :: "nat list"
  colours :: int

record MCNode =
  sol :: MCSol
  node_size :: int
  remaining :: BitSet

text \<open>
  The generator's fields. \<^verbatim>\<open>p\<close> and \<^verbatim>\<open>v\<close> are \<open>gen_p\<close> and \<open>gen_v\<close>;
  \<^verbatim>\<open>numChildren\<close> is the field of the base class \<^verbatim>\<open>YewPar::NodeGenerator\<close>.
\<close>

record GenNode =
  p_order :: "nat \<Rightarrow> nat"
  colourClass :: "nat \<Rightarrow> nat"
  graph :: BitGraph
  childSol :: MCSol
  childBnd :: int
  gen_p :: BitSet
  gen_v :: int
  numChildren :: nat

text \<open>
  The constructor \<^verbatim>\<open>GenNode(graph, n)\<close>. The member arrays are not initialised before
  \<^verbatim>\<open>colour_class_order\<close> writes them: \<open>po0\<close> and \<open>cc0\<close> are what they hold then.
  \<^verbatim>\<open>v = numChildren - 1\<close> is \<open>-1\<close> when there is no child.
\<close>

definition mk_GenNode :: "BitGraph \<Rightarrow> (nat \<Rightarrow> nat) \<Rightarrow> (nat \<Rightarrow> nat) \<Rightarrow> MCNode \<Rightarrow> GenNode" where
  "mk_GenNode gr po0 cc0 n =
     (case colour_class_order gr (remaining n) po0 cc0 of
        (po, cc) \<Rightarrow>
          \<lparr>p_order = po, colourClass = cc, graph = gr, childSol = sol n,
           childBnd = node_size n + 1, gen_p = remaining n,
           gen_v = int (popcount (remaining n)) - 1,
           numChildren = popcount (remaining n)\<rparr>)"

text \<open>
  \<^verbatim>\<open>MCNode next()\<close>: the child at position \<open>v\<close> of the colour order, then
  \<^verbatim>\<open>p.unset(p_order[v]); v--\<close>. The result is the child and the generator after the call.
\<close>

definition gen_next :: "GenNode \<Rightarrow> (MCNode \<times> GenNode) option" where
  "gen_next g =
     (case arr_read (p_order g) (gen_v g) of
        None \<Rightarrow> None
      | Some x \<Rightarrow>
          (case arr_read (colourClass g) (gen_v g) of
             None \<Rightarrow> None
           | Some c \<Rightarrow>
               Some (\<lparr>sol = \<lparr>members = members (childSol g) @ [x], colours = int c - 1\<rparr>,
                      node_size = childBnd g,
                      remaining = intersect_with_row (graph g) x (gen_p g)\<rparr>,
                     g\<lparr>gen_p := unset x (gen_p g), gen_v := gen_v g - 1\<rparr>)))"

text \<open>
  The loop of \<^verbatim>\<open>nth\<close>: \<^verbatim>\<open>for (auto i = v; i > pos; --i) cands.unset(p_order[i]);\<close>
  \<open>i\<close> is an \<^verbatim>\<open>int\<close> and \<open>pos\<close> an \<^verbatim>\<open>unsigned\<close>, so the comparison converts \<open>i\<close>
  to \<^verbatim>\<open>unsigned\<close>.
\<close>

function nth_loop :: "(nat \<Rightarrow> nat) \<Rightarrow> int \<Rightarrow> nat \<Rightarrow> BitSet \<Rightarrow> BitSet option" where
  "nth_loop po i pos cands =
     (if i mod 2 ^ 32 > int pos then
        (case arr_read po i of
           None \<Rightarrow> None
         | Some x \<Rightarrow> nth_loop po (i - 1) pos (unset x cands))
      else Some cands)"
  by pat_completeness auto
termination
proof (relation "measure (\<lambda>(po, i, pos, cands). nat i)", goal_cases)
  case 1
  show ?case by simp
next
  case (2 po i pos cands x)
  from 2(2) have "0 \<le> i"
    by (simp add: arr_read_def split: if_splits)
  moreover from 2(1) have "i \<noteq> 0" by auto
  ultimately show ?case by simp
qed

declare nth_loop.simps [simp del]

text \<open>
  \<^verbatim>\<open>MCNode nth(unsigned n)\<close>: \<^verbatim>\<open>auto pos = v - n\<close> is computed in \<^verbatim>\<open>unsigned\<close>
  arithmetic. The method assigns no field; the generator is returned as it was.
\<close>

definition gen_nth :: "GenNode \<Rightarrow> nat \<Rightarrow> (MCNode \<times> GenNode) option" where
  "gen_nth g n =
     (let pos = nat ((gen_v g - int n) mod 2 ^ 32) in
      case arr_read (p_order g) (int pos) of
        None \<Rightarrow> None
      | Some x \<Rightarrow>
          (case arr_read (colourClass g) (int pos) of
             None \<Rightarrow> None
           | Some c \<Rightarrow>
               (case nth_loop (p_order g) (gen_v g) pos (gen_p g) of
                  None \<Rightarrow> None
                | Some cands \<Rightarrow>
                    Some (\<lparr>sol = \<lparr>members = members (childSol g) @ [x], colours = int c - 1\<rparr>,
                           node_size = childBnd g,
                           remaining = intersect_with_row (graph g) x cands\<rparr>,
                          g))))"

text \<open>\<^verbatim>\<open>int upperBound(space, n) { return n.size + n.sol.colours; }\<close>\<close>

definition upperBound :: "BitGraph \<Rightarrow> MCNode \<Rightarrow> int" where
  "upperBound space n = node_size n + colours (sol n)"

text \<open>\<open>nexts k g\<close> is the result of the \<open>(k+1)\<close>-th of successive calls of \<^verbatim>\<open>next()\<close>.\<close>

fun nexts :: "nat \<Rightarrow> GenNode \<Rightarrow> (MCNode \<times> GenNode) option" where
  "nexts 0 g = gen_next g"
| "nexts (Suc k) g = (case gen_next g of None \<Rightarrow> None | Some (c, g') \<Rightarrow> nexts k g')"

text \<open>The node \<^verbatim>\<open>nth\<close> builds for position \<open>pos\<close> and candidate set \<open>cands\<close>.\<close>

definition nth_node :: "GenNode \<Rightarrow> nat \<Rightarrow> BitSet \<Rightarrow> MCNode" where
  "nth_node g pos cands =
     \<lparr>sol = \<lparr>members = members (childSol g) @ [p_order g pos],
              colours = int (colourClass g pos) - 1\<rparr>,
      node_size = childBnd g,
      remaining = intersect_with_row (graph g) (p_order g pos) cands\<rparr>"


text \<open>
  A generator state to evaluate on: three vertices 0, 1, 2 without edges, each in the first
  colour class, no child taken yet.
\<close>

definition example_gen :: GenNode where
  "example_gen =
     \<lparr>p_order = (\<lambda>i. i), colourClass = (\<lambda>i. 1), graph = (\<lambda>a. {||}),
      childSol = \<lparr>members = [], colours = 0\<rparr>, childBnd = 1,
      gen_p = {|0, 1, 2|}, gen_v = 2, numChildren = 3\<rparr>"

text \<open>A node and a graph to evaluate on: vertices 0, 1, 2 with the single edge 0 - 1.\<close>

definition example_graph :: BitGraph where
  "example_graph = (\<lambda>a. if a = 0 then {|1|} else if a = 1 then {|0|} else {||})"

definition example_node :: MCNode where
  "example_node = \<lparr>sol = \<lparr>members = [], colours = 0\<rparr>, node_size = 0, remaining = {|0, 1, 2|}\<rparr>"

section \<open>The Indexed branch-and-bound skeleton\<close>

text \<open>
  The skeleton is a set of function templates over \<^verbatim>\<open>Space, Sol, Bnd, Cand, Gen, Bound\<close>.
  A node is the tuple \<^verbatim>\<open>hpx::util::tuple<Sol, Bnd, Cand>\<close>, here a value of type \<open>'n\<close>
  whose second component is read by \<open>objective\<close>. The generator \<^verbatim>\<open>Gen\<close> and the bound
  function \<^verbatim>\<open>Bound\<close> are the user's; \<^verbatim>\<open>positionIndex.hpp\<close>, \<^verbatim>\<open>registry.hpp\<close> and
  \<^verbatim>\<open>incumbent.hpp\<close> are not among the sources. All of them are parameters of the model:
  a position index is a value of type \<open>'p\<close>, the registries of the localities together with
  the global incumbent a value of type \<open>'r\<close>, and every call into them is a field of
  the record below.
\<close>

record ('s, 'n, 'b, 'g, 'p, 'r) IndexedEnv =
  Gen_invoke :: "'s \<Rightarrow> 'n \<Rightarrow> 'g"
  Gen_numChildren :: "'g \<Rightarrow> int"
  Gen_next :: "'g \<Rightarrow> 's \<Rightarrow> 'n \<Rightarrow> 'n \<times> 'g"
  Gen_nth :: "'g \<Rightarrow> 's \<Rightarrow> 'n \<Rightarrow> nat \<Rightarrow> 'n"
  Bound_invoke :: "'s \<Rightarrow> 'n \<Rightarrow> 'b"
  objective :: "'n \<Rightarrow> 'b"
  setNumChildren :: "'p \<Rightarrow> int \<Rightarrow> 'p"
  getNextPosition :: "'p \<Rightarrow> int \<times> 'p"
  pruneLevel :: "'p \<Rightarrow> 'p"
  preExpand :: "'p \<Rightarrow> int \<Rightarrow> 'p"
  postExpand :: "'p \<Rightarrow> 'p"
  localBound_load :: "'r \<Rightarrow> 'b"
  updateRegistryBound :: "'b \<Rightarrow> 'r \<Rightarrow> 'r"
  broadcast_updateRegistryBound :: "'b \<Rightarrow> 'r \<Rightarrow> 'r"
  updateIncumbent :: "'n \<Rightarrow> 'r \<Rightarrow> 'r"

text \<open>
  What \<^verbatim>\<open>expand\<close> changes: the position index it is given by reference and the registries
  and incumbent it reaches through \<^verbatim>\<open>gReg\<close>. \<open>entered\<close> is not program state: it lists
  the nodes \<^verbatim>\<open>expand\<close> was called on, in order.
\<close>

record ('n, 'p, 'r) IState =
  ipos :: 'p
  ireg :: 'r
  entered :: "'n list"

text \<open>
  The start of the loop body of \<^verbatim>\<open>expand\<close>:
  \<^verbatim>\<open>auto c = newCands.next(space, n);
  if (nextPos != i) { for (auto j = 0; j < nextPos - i; ++j) c = newCands.next(space, n);
                      i += nextPos - i; }\<close>
  The result is the child, the generator after the calls and the new \<open>i\<close>.
\<close>

fun skip_children ::
  "('s, 'n, 'b, 'g, 'p, 'r) IndexedEnv \<Rightarrow> 's \<Rightarrow> 'n \<Rightarrow> nat \<Rightarrow> 'n \<times> 'g \<Rightarrow> 'n \<times> 'g" where
  "skip_children E sp n 0 cg = cg"
| "skip_children E sp n (Suc k) (c, g) = skip_children E sp n k (Gen_next E g sp n)"

definition take_child ::
  "('s, 'n, 'b, 'g, 'p, 'r) IndexedEnv \<Rightarrow> 's \<Rightarrow> 'n \<Rightarrow> 'g \<Rightarrow> int \<Rightarrow> int \<Rightarrow> 'n \<times> 'g \<times> int" where
  "take_child E sp n g i nextPos =
     (if nextPos \<noteq> i then
        (case skip_children E sp n (nat (nextPos - i)) (Gen_next E g sp n) of
           (c, g') \<Rightarrow> (c, g', i + (nextPos - i)))
      else (case Gen_next E g sp n of (c, g') \<Rightarrow> (c, g', i)))"

text \<open>
  The registry updates of the branch \<^verbatim>\<open>if (hpx::util::get<1>(c) > lbnd)\<close>, in the order of
  the source: the local \<^verbatim>\<open>updateRegistryBound\<close>, its broadcast to
  \<^verbatim>\<open>hpx::find_all_localities()\<close>, then \<^verbatim>\<open>updateIncumbent_action\<close> on the global incumbent.
\<close>

definition update_incumbent_if_required ::
  "('s, 'n, 'b :: linorder, 'g, 'p, 'r) IndexedEnv \<Rightarrow> 'n \<Rightarrow> 'b \<Rightarrow> 'r \<Rightarrow> 'r" where
  "update_incumbent_if_required E c lbnd r =
     (if objective E c > lbnd then
        updateIncumbent E c
          (broadcast_updateRegistryBound E (objective E c)
            (updateRegistryBound E (objective E c) r))
      else r)"

text \<open>
  \<^verbatim>\<open>expand(pos, n)\<close> and its loop \<^verbatim>\<open>while ((nextPos = pos.getNextPosition()) >= 0)\<close>.
  The generator and the position index are the user's and the runtime's, so neither the
  recursion nor the loop need end: the first argument after the flags bounds the number of
  nested calls and iterations, and \<open>None\<close> says it was used up. \<open>pl\<close> is the template
  argument \<^verbatim>\<open>PruneLevel\<close>.
\<close>

fun expand ::
  "('s, 'n, 'b :: linorder, 'g, 'p, 'r) IndexedEnv \<Rightarrow> 's \<Rightarrow> bool \<Rightarrow> nat \<Rightarrow> 'n
    \<Rightarrow> ('n, 'p, 'r) IState \<Rightarrow> ('n, 'p, 'r) IState option"
and expand_loop ::
  "('s, 'n, 'b :: linorder, 'g, 'p, 'r) IndexedEnv \<Rightarrow> 's \<Rightarrow> bool \<Rightarrow> nat \<Rightarrow> 'n \<Rightarrow> 'g \<Rightarrow> int
    \<Rightarrow> ('n, 'p, 'r) IState \<Rightarrow> ('n, 'p, 'r) IState option" where
  "expand E sp pl 0 n s = None"
| "expand E sp pl (Suc f) n s =
     (let newCands = Gen_invoke E sp n in
      expand_loop E sp pl f n newCands 0
        (s\<lparr>ipos := setNumChildren E (ipos s) (Gen_numChildren E newCands),
           entered := entered s @ [n]\<rparr>))"
| "expand_loop E sp pl 0 n g i s = None"
| "expand_loop E sp pl (Suc f) n g i s =
     (case getNextPosition E (ipos s) of
        (nextPos, pos1) \<Rightarrow>
          if nextPos \<ge> 0 then
            (case take_child E sp n g i nextPos of
               (c, g', i') \<Rightarrow>
                 (let lbnd = localBound_load E (ireg s);
                      ubound = Bound_invoke E sp c
                  in if ubound \<le> lbnd then
                       (if pl then Some (s\<lparr>ipos := pruneLevel E pos1\<rparr>)
                        else expand_loop E sp pl f n g' (i' + 1) (s\<lparr>ipos := pos1\<rparr>))
                     else
                       (case expand E sp pl f c
                               (s\<lparr>ipos := preExpand E pos1 i',
                                  ireg := update_incumbent_if_required E c lbnd (ireg s)\<rparr>) of
                          None \<Rightarrow> None
                        | Some s2 \<Rightarrow>
                            expand_loop E sp pl f n g' (i' + 1)
                              (s2\<lparr>ipos := postExpand E (ipos s2)\<rparr>))))
          else Some (s\<lparr>ipos := pos1\<rparr>))"

text \<open>
  \<^verbatim>\<open>getStartingNode(path)\<close>. \<^verbatim>\<open>path.erase(path.begin())\<close> on an empty vector is undefined
  behaviour and \<open>None\<close> here. The second component of the result is not program state: it
  lists the nodes a generator was constructed for (\<^verbatim>\<open>Gen::invoke\<close>), in order.
\<close>

fun walk_path ::
  "('s, 'n, 'b, 'g, 'p, 'r) IndexedEnv \<Rightarrow> 's \<Rightarrow> nat list \<Rightarrow> 'n \<times> 'n list \<Rightarrow> 'n \<times> 'n list" where
  "walk_path E sp [] (node, invoked) = (node, invoked)"
| "walk_path E sp (p # path) (node, invoked) =
     (let newCands = Gen_invoke E sp node in
      walk_path E sp path (Gen_nth E newCands sp node p, invoked @ [node]))"

definition getStartingNode ::
  "('s, 'n, 'b, 'g, 'p, 'r) IndexedEnv \<Rightarrow> 's \<Rightarrow> 'n \<Rightarrow> nat list \<Rightarrow> ('n \<times> 'n list) option" where
  "getStartingNode E sp root path =
     (case path of
        [] \<Rightarrow> None
      | p0 # path' \<Rightarrow>
          if path' = [] then Some (root, []) else Some (walk_path E sp path' (root, [])))"

text \<open>
  The node a path names, in the words of the specification: the path \<open>[]\<close> below the root
  names the root, and a path that ends in \<open>p\<close> names the \<open>p\<close>-th child, taken with
  \<^verbatim>\<open>nth\<close> from the generator of the node the path before \<open>p\<close> names.
\<close>

fun node_at :: "('s, 'n, 'b, 'g, 'p, 'r) IndexedEnv \<Rightarrow> 's \<Rightarrow> 'n \<Rightarrow> nat list \<Rightarrow> 'n" where
  "node_at E sp root ps =
     (if ps = [] then root
      else Gen_nth E (Gen_invoke E sp (node_at E sp root (butlast ps))) sp
             (node_at E sp root (butlast ps)) (last ps))"

declare node_at.simps [simp del]

subsection \<open>An instance to evaluate on\<close>

text \<open>
  Modelled from the spec: the position index (section 4.6: a path of child indexes, the
  number of children at the current level, the next index this worker still owns), the
  registry (section 4.1: \<^verbatim>\<open>updateBound\<close> installs a bound only if it improves the current
  one) and the incumbent (monotone \<^verbatim>\<open>update\<close>). None of the three is among the sources.
  The theorems below hold for every implementation of them; this instance is what the
  concrete evaluations run on.
\<close>

record PositionIndex =
  idx_path :: "int list"
  idx_levels :: "(int \<times> int) list"

definition pi_setNumChildren :: "PositionIndex \<Rightarrow> int \<Rightarrow> PositionIndex" where
  "pi_setNumChildren p k = p\<lparr>idx_levels := (k, 0) # tl (idx_levels p)\<rparr>"

definition pi_getNextPosition :: "PositionIndex \<Rightarrow> int \<times> PositionIndex" where
  "pi_getNextPosition p =
     (case idx_levels p of
        [] \<Rightarrow> (- 1, p)
      | (k, nxt) # ls \<Rightarrow>
          if nxt < k then (nxt, p\<lparr>idx_levels := (k, nxt + 1) # ls\<rparr>) else (- 1, p))"

definition pi_pruneLevel :: "PositionIndex \<Rightarrow> PositionIndex" where
  "pi_pruneLevel p =
     (case idx_levels p of [] \<Rightarrow> p | (k, nxt) # ls \<Rightarrow> p\<lparr>idx_levels := (k, k) # ls\<rparr>)"

definition pi_preExpand :: "PositionIndex \<Rightarrow> int \<Rightarrow> PositionIndex" where
  "pi_preExpand p i = p\<lparr>idx_path := idx_path p @ [i], idx_levels := (0, 0) # idx_levels p\<rparr>"

definition pi_postExpand :: "PositionIndex \<Rightarrow> PositionIndex" where
  "pi_postExpand p = p\<lparr>idx_path := butlast (idx_path p), idx_levels := tl (idx_levels p)\<rparr>"

text \<open>
  The registries of the localities, \<open>here\<close> the one of the calling locality, and the
  global incumbent.
\<close>

record 'n Cluster =
  localBounds :: "int list"
  cl_here :: nat
  globalIncumbent :: 'n

definition cl_localBound :: "'n Cluster \<Rightarrow> int" where
  "cl_localBound r = localBounds r ! cl_here r"

definition cl_updateRegistryBound :: "int \<Rightarrow> 'n Cluster \<Rightarrow> 'n Cluster" where
  "cl_updateRegistryBound b r =
     r\<lparr>localBounds := (localBounds r)[cl_here r := max b (localBounds r ! cl_here r)]\<rparr>"

definition cl_broadcast :: "int \<Rightarrow> 'n Cluster \<Rightarrow> 'n Cluster" where
  "cl_broadcast b r = r\<lparr>localBounds := map (max b) (localBounds r)\<rparr>"

definition cl_updateIncumbent :: "('n \<Rightarrow> int) \<Rightarrow> 'n \<Rightarrow> 'n Cluster \<Rightarrow> 'n Cluster" where
  "cl_updateIncumbent obj c r =
     (if obj c > obj (globalIncumbent r) then r\<lparr>globalIncumbent := c\<rparr> else r)"

text \<open>
  The example search space: a node is a pair (objective, bound); every node has two
  children, the \<open>k\<close>-th child of \<open>(o, b)\<close> being \<open>(o + 1 + k, b - 1)\<close>. The generator is
  the node with the number of the next child.
\<close>

definition ex_child :: "int \<times> int \<Rightarrow> nat \<Rightarrow> int \<times> int" where
  "ex_child n k = (fst n + 1 + int k, snd n - 1)"

definition example_IndexedEnv ::
  "(unit, int \<times> int, int, (int \<times> int) \<times> nat, PositionIndex, (int \<times> int) Cluster) IndexedEnv" where
  "example_IndexedEnv =
     \<lparr>Gen_invoke = (\<lambda>sp n. (n, 0)),
      Gen_numChildren = (\<lambda>g. 2),
      Gen_next = (\<lambda>g sp n. (ex_child (fst g) (snd g), (fst g, snd g + 1))),
      Gen_nth = (\<lambda>g sp n k. ex_child (fst g) k),
      Bound_invoke = (\<lambda>sp n. snd n),
      objective = fst,
      setNumChildren = pi_setNumChildren,
      getNextPosition = pi_getNextPosition,
      pruneLevel = pi_pruneLevel,
      preExpand = pi_preExpand,
      postExpand = pi_postExpand,
      localBound_load = cl_localBound,
      updateRegistryBound = cl_updateRegistryBound,
      broadcast_updateRegistryBound = cl_broadcast,
      updateIncumbent = cl_updateIncumbent fst\<rparr>"

text \<open>
  A state in the loop of \<^verbatim>\<open>expand\<close> on the node \<open>(4, 1)\<close>: two localities whose bounds are
  3, the incumbent \<open>(3, 3)\<close>, no child taken yet. The first child is \<open>(5, 0)\<close>: its
  objective 5 is above the bound 3, its user bound 0 is not.
\<close>

definition example_IState :: "(int \<times> int, PositionIndex, (int \<times> int) Cluster) IState" where
  "example_IState =
     \<lparr>ipos = \<lparr>idx_path = [0], idx_levels = [(2, 0)]\<rparr>,
      ireg = \<lparr>localBounds = [3, 3], cl_here = 0, globalIncumbent = (3, 3)\<rparr>,
      entered = [(4, 1)]\<rparr>"

section \<open>The search drivers\<close>

text \<open>
  \<^verbatim>\<open>search\<close> is a sequence of calls into the runtime (broadcasts, remote actions, waits).
  Each call is a step; the model of \<^verbatim>\<open>search\<close> is the list of the steps it performs, in
  the order of its statements. Every step is waited for before the next statement runs
  (\<^verbatim>\<open>hpx::wait_all\<close>, \<^verbatim>\<open>.get()\<close>), but for the submission of the root path in the Indexed
  skeleton, which is followed by the wait on the root's promise.
\<close>

datatype SearchStep =
  PrintSkeletonDetails
  | BroadcastInitRegistry
  | InitPolicy
  | BroadcastStartSchedulers
  | NewIncumbent
  | BroadcastIncumbentHandle
  | InstallInitialBound
  | SubmitRootTask
  | AwaitRootPromise
  | BroadcastStopSchedulers
  | CombineEnumerators
  | GetIncumbent

text \<open>
  \<^verbatim>\<open>Random::search\<close>. The arguments are the compile-time flags \<^verbatim>\<open>verbose\<close>,
  \<^verbatim>\<open>isEnumeration\<close>, \<^verbatim>\<open>isOptimisation\<close> and \<^verbatim>\<open>isDecision\<close>. With none of the three
  search types the \<^verbatim>\<open>static_assert\<close> rejects the program: \<open>None\<close>.
  \<open>InstallInitialBound\<close> is \<^verbatim>\<open>initIncumbent(root, params.initialBound)\<close>,
  \<open>SubmitRootTask\<close> and \<open>AwaitRootPromise\<close> are \<^verbatim>\<open>createTask(1, root).get()\<close>.
\<close>

definition Random_search :: "bool \<Rightarrow> bool \<Rightarrow> bool \<Rightarrow> bool \<Rightarrow> SearchStep list option" where
  "Random_search verbose isEnumeration isOptimisation isDecision =
     (let t0 = (if verbose then [PrintSkeletonDetails] else []);
          t1 = t0 @ [BroadcastInitRegistry];
          t2 = t1 @ [InitPolicy];
          t3 = t2 @ [BroadcastStartSchedulers];
          t4 = (if isOptimisation \<or> isDecision
                then t3 @ [NewIncumbent] @ [BroadcastIncumbentHandle] @ [InstallInitialBound]
                else t3);
          t5 = t4 @ [SubmitRootTask] @ [AwaitRootPromise];
          t6 = t5 @ [BroadcastStopSchedulers]
      in if isEnumeration then Some (t6 @ [CombineEnumerators])
         else if isOptimisation \<or> isDecision then Some (t6 @ [GetIncumbent])
         else None)"

text \<open>
  \<^verbatim>\<open>BnB::Indexed::search\<close>. The incumbent is constructed first, since its handle is an
  argument of \<^verbatim>\<open>initRegistry\<close>; \<open>InstallInitialBound\<close> is the \<^verbatim>\<open>updateIncumbent\<close> with the
  root, \<open>InitPolicy\<close> the broadcast of \<^verbatim>\<open>initPosMgr\<close>, \<open>BroadcastStartSchedulers\<close> the
  \<^verbatim>\<open>startScheduler_indexed_action\<close> given all position managers, \<open>SubmitRootTask\<close> the
  \<^verbatim>\<open>addWork\<close> of the path \<open>[0]\<close>.
\<close>

definition Indexed_search :: "SearchStep list" where
  "Indexed_search =
     (let t1 = [NewIncumbent] @ [BroadcastInitRegistry];
          t2 = t1 @ [InstallInitialBound];
          t3 = t2 @ [InitPolicy];
          t4 = t3 @ [BroadcastStartSchedulers];
          t5 = t4 @ [SubmitRootTask] @ [AwaitRootPromise];
          t6 = t5 @ [BroadcastStopSchedulers]
      in t6 @ [GetIncumbent])"

text \<open>\<open>in_order xs tr\<close>: the steps \<open>xs\<close> occur in the trace \<open>tr\<close>, in this order.\<close>

fun in_order :: "'a list \<Rightarrow> 'a list \<Rightarrow> bool" where
  "in_order [] tr = True"
| "in_order (x # xs) [] = False"
| "in_order (x # xs) (y # tr) = (if x = y then in_order xs tr else in_order (x # xs) tr)"

text \<open>
  The order of the specification for the optimisation and decision modes, in its words:
  registry initialisation, incumbent and initial bound, policy, schedulers, root task and
  its promise, scheduler shutdown, incumbent read.
\<close>

definition spec_search_order :: "SearchStep list" where
  "spec_search_order =
     [BroadcastInitRegistry, NewIncumbent, InstallInitialBound, InitPolicy,
      BroadcastStartSchedulers, SubmitRootTask, AwaitRootPromise, BroadcastStopSchedulers,
      GetIncumbent]"

section \<open>The priority-ordered policy\<close>

text \<open>
  Modelled from the spec: \<^verbatim>\<open>workstealing/priorityworkqueue.hpp\<close> is not among the sources.
  The workqueue is a component with the actions \<^verbatim>\<open>steal\<close>, \<^verbatim>\<open>addWork\<close> and
  \<^verbatim>\<open>workRemaining\<close>; \<^verbatim>\<open>steal\<close> answers with a task or with an empty function. The
  queue's state is a value of type \<open>'q\<close> and its actions are the fields of the record; the
  policy in \<^verbatim>\<open>PriorityOrdered.hpp\<close> is modelled over any such queue.
\<close>

record ('q, 't) WorkqueueOps =
  wq_new :: 'q
  wq_steal :: "'q \<Rightarrow> 't option \<times> 'q"
  wq_addWork :: "int \<Rightarrow> 't \<Rightarrow> 'q \<Rightarrow> 'q"
  wq_workRemaining :: "'q \<Rightarrow> bool"

text \<open>
  The runtime as the policy sees it: the components by global id (\<open>next_gid\<close> is the id
  the next \<^verbatim>\<open>hpx::new_\<close> hands out), the localities of \<^verbatim>\<open>hpx::find_all_localities()\<close>, and
  per locality the static \<^verbatim>\<open>Workstealing::Scheduler::local_policy\<close>. A
  \<^verbatim>\<open>PriorityOrderedPolicy\<close> object is its field \<^verbatim>\<open>globalWorkqueue\<close>.
\<close>

record 'q Runtime =
  components :: "nat \<rightharpoonup> 'q"
  next_gid :: nat
  all_localities :: "nat list"
  local_policy :: "nat \<rightharpoonup> nat"

text \<open>A task bound to a locality: \<^verbatim>\<open>hpx::util::bind(task, hpx::find_here())\<close>.\<close>

datatype 't Callable = Bind 't nat

text \<open>
  \<^verbatim>\<open>getWork()\<close> of the policy object with the field \<open>globalWorkqueue\<close>, called on the
  locality \<open>here\<close>. The outer \<open>None\<close> is the failure of the remote action when the id
  names no component; the inner one is \<^verbatim>\<open>return nullptr\<close>.
\<close>

definition getWork ::
  "('q, 't) WorkqueueOps \<Rightarrow> nat \<Rightarrow> nat \<Rightarrow> 'q Runtime \<Rightarrow> ('t Callable option \<times> 'q Runtime) option" where
  "getWork ops here globalWorkqueue rt =
     (case components rt globalWorkqueue of
        None \<Rightarrow> None
      | Some q \<Rightarrow>
          (case wq_steal ops q of
             (task, q') \<Rightarrow>
               Some (case task of Some t \<Rightarrow> Some (Bind t here) | None \<Rightarrow> None,
                     rt\<lparr>components := (components rt)(globalWorkqueue \<mapsto> q')\<rparr>)))"

text \<open>\<^verbatim>\<open>addwork(priority, task)\<close> of the policy object.\<close>

definition addwork ::
  "('q, 't) WorkqueueOps \<Rightarrow> nat \<Rightarrow> int \<Rightarrow> 't \<Rightarrow> 'q Runtime \<Rightarrow> 'q Runtime option" where
  "addwork ops globalWorkqueue priority task rt =
     (case components rt globalWorkqueue of
        None \<Rightarrow> None
      | Some q \<Rightarrow>
          Some (rt\<lparr>components :=
                  (components rt)(globalWorkqueue \<mapsto> wq_addWork ops priority task q)\<rparr>))"

text \<open>
  \<^verbatim>\<open>setPriorityWorkqueuePolicy(globalWorkqueue)\<close> run on the locality \<open>l\<close>, and
  \<^verbatim>\<open>initPolicy()\<close>: one \<^verbatim>\<open>hpx::new_<priorityworkqueue>\<close>, then the broadcast of the setter
  to all localities with the new id.
\<close>

definition setPriorityWorkqueuePolicy :: "nat \<Rightarrow> nat \<Rightarrow> 'q Runtime \<Rightarrow> 'q Runtime" where
  "setPriorityWorkqueuePolicy globalWorkqueue l rt =
     rt\<lparr>local_policy := (local_policy rt)(l \<mapsto> globalWorkqueue)\<rparr>"

definition initPolicy :: "('q, 't) WorkqueueOps \<Rightarrow> 'q Runtime \<Rightarrow> 'q Runtime" where
  "initPolicy ops rt =
     (let globalWorkqueue = next_gid rt;
          rt1 = rt\<lparr>components := (components rt)(globalWorkqueue \<mapsto> wq_new ops),
                   next_gid := next_gid rt + 1\<rparr>
      in fold (setPriorityWorkqueuePolicy globalWorkqueue) (all_localities rt1) rt1)"

text \<open>
  The scheduler of the locality \<open>l\<close> asks its \<^verbatim>\<open>local_policy\<close> for work, and a producer on
  \<open>l\<close> hands work to it.
\<close>

definition local_getWork ::
  "('q, 't) WorkqueueOps \<Rightarrow> nat \<Rightarrow> 'q Runtime \<Rightarrow> ('t Callable option \<times> 'q Runtime) option" where
  "local_getWork ops l rt =
     (case local_policy rt l of None \<Rightarrow> None | Some gwq \<Rightarrow> getWork ops l gwq rt)"

definition local_addwork ::
  "('q, 't) WorkqueueOps \<Rightarrow> nat \<Rightarrow> int \<Rightarrow> 't \<Rightarrow> 'q Runtime \<Rightarrow> 'q Runtime option" where
  "local_addwork ops l priority task rt =
     (case local_policy rt l of None \<Rightarrow> None | Some gwq \<Rightarrow> addwork ops gwq priority task rt)"

text \<open>
  A queue to evaluate on, after section 4.3 of the specification: entries keyed by an integer
  priority, the highest priority first and the newest first among equals.
\<close>

fun pq_insert :: "int \<Rightarrow> 't \<Rightarrow> (int \<times> 't) list \<Rightarrow> (int \<times> 't) list" where
  "pq_insert pr t [] = [(pr, t)]"
| "pq_insert pr t ((pr', t') # q) =
     (if pr' \<le> pr then (pr, t) # (pr', t') # q else (pr', t') # pq_insert pr t q)"

definition example_queue :: "((int \<times> 't) list, 't) WorkqueueOps" where
  "example_queue =
     \<lparr>wq_new = [],
      wq_steal = (\<lambda>q. case q of [] \<Rightarrow> (None, []) | (pr, t) # q' \<Rightarrow> (Some t, q')),
      wq_addWork = pq_insert,
      wq_workRemaining = (\<lambda>q. q \<noteq> [])\<rparr>"

definition example_runtime :: "(int \<times> string) list Runtime" where
  "example_runtime =
     \<lparr>components = [7 \<mapsto> [(5, ''job'')]], next_gid = 8, all_localities = [0, 1, 2],
      local_policy = Map.empty\<rparr>"

section \<open>The Random skeleton\<close>

subsection \<open>Generators, stack elements and the parameters of the skeleton\<close>

text \<open>
  \<^verbatim>\<open>Random<Generator, Args...>\<close> is a template over the user's generator and the skeleton's
  flags. A generator object is the field \<^verbatim>\<open>numChildren\<close>, which its constructor sets, and
  the state \<^verbatim>\<open>next()\<close> advances; a call of \<^verbatim>\<open>next()\<close> on an exhausted generator is outside
  the generator's contract and \<open>None\<close> here. \<^verbatim>\<open>StackElem\<close>, \<^verbatim>\<open>GeneratorStack\<close>,
  \<^verbatim>\<open>API::Params\<close> and \<^verbatim>\<open>ProcessNode\<close> are not among the sources: a stack element is the
  three fields \<^verbatim>\<open>expand\<close> reads and writes, the stack is a vector of \<^verbatim>\<open>maxStackDepth\<close>
  copies of the first element, the parameters are the two fields \<^verbatim>\<open>expand\<close> reads.
\<close>

record 'g Gen =
  g_numChildren :: nat
  g_iter :: 'g

record ('n, 'g) StackElem =
  seen :: nat
  node :: 'n
  gen :: "'g Gen"

record Params =
  maxDepth :: nat
  spawnProbability :: nat

datatype ProcessNodeRet = Exit | Prune | Break | Continue

text \<open>
  What the skeleton is instantiated with: the generator (\<open>Generator\<close> is its constructor),
  \<^verbatim>\<open>ProcessNode::processNode\<close> and the enumerator and registry calls (all absent, hence
  parameters over an accumulator type \<open>'a\<close> and a registry type \<open>'r\<close>), the values the
  successive calls of \<^verbatim>\<open>rand()\<close> return, the compile-time flags, and the scheduler's choice
  of the next task in the workpool.
\<close>

record ('s, 'n, 'g, 'a, 'r) RandomEnv =
  Generator :: "'s \<Rightarrow> 'n \<Rightarrow> 'g Gen"
  gen_next_child :: "'g \<Rightarrow> ('n \<times> 'g) option"
  processNode :: "Params \<Rightarrow> 's \<Rightarrow> 'n \<Rightarrow> 'a \<Rightarrow> 'r \<Rightarrow> ProcessNodeRet \<times> 'a \<times> 'r"
  new_Enum :: 'a
  accumulate :: "'n \<Rightarrow> 'a \<Rightarrow> 'a"
  updateEnumerator :: "'a \<Rightarrow> 'r \<Rightarrow> 'r"
  stopSearch :: "'r \<Rightarrow> bool"
  rand :: "nat \<Rightarrow> nat"
  isEnumeration :: bool
  isDecision :: bool
  isDepthBounded :: bool
  maxStackDepth :: nat
  choose_task :: "(nat \<times> nat \<times> 'n) list \<Rightarrow> nat"

text \<open>
  The state \<^verbatim>\<open>expand\<close> works on. Its own: \<open>genStack\<close>, \<open>stackDepth\<close> (an \<^verbatim>\<open>int\<close>),
  \<open>depth\<close> (an \<^verbatim>\<open>unsigned\<close> that moves with \<open>stackDepth\<close> and so stays within one of
  \<open>childDepth\<close>), the enumerator \<open>acc\<close> and \<open>childFutures\<close>. The process's: the
  registry, the number of calls of \<^verbatim>\<open>rand()\<close> made, the workpool as the list of the tasks
  added (promise id, child depth, task root), and the id the next promise gets; a future is
  named by the id of its promise. \<open>visited\<close> is not program state: it lists the nodes
  that were taken as a task's root or handed to \<^verbatim>\<open>processNode\<close>, in order.
\<close>

record ('n, 'g, 'a, 'r) XState =
  genStack :: "('n, 'g) StackElem list"
  stackDepth :: int
  depth :: int
  acc :: 'a
  childFutures :: "nat list"
  registry :: 'r
  rand_calls :: nat
  workpool :: "(nat \<times> nat \<times> 'n) list"
  next_promise :: nat
  visited :: "'n list"

datatype 'x Run = Finished 'x | Undefined_behaviour | Out_of_fuel

subsection \<open>createTask and the spawn test\<close>

text \<open>
  \<^verbatim>\<open>createTask(childDepth, taskRoot)\<close>: a new promise, the task added to the workpool
  (\<^verbatim>\<open>addwork(task, childDepth - 1)\<close> for the depth pool, \<^verbatim>\<open>addwork(task)\<close> for the deque),
  the promise's future returned.
\<close>

definition createTask ::
  "nat \<Rightarrow> 'n \<Rightarrow> ('n, 'g, 'a, 'r) XState \<Rightarrow> nat \<times> ('n, 'g, 'a, 'r) XState" where
  "createTask childDepth taskRoot s =
     (next_promise s,
      s\<lparr>workpool := workpool s @ [(next_promise s, childDepth, taskRoot)],
        next_promise := next_promise s + 1\<rparr>)"

text \<open>
  The inner loop of the spawn:
  \<^verbatim>\<open>while (genStack[i].seen < genStack[i].gen.numChildren) {
     genStack[i].seen++;
     childFutures.push_back(createTask(childDepth + i + 1, genStack[i].gen.next())); }\<close>
\<close>

function spawn_frame ::
  "('s, 'n, 'g, 'a, 'r) RandomEnv \<Rightarrow> nat \<Rightarrow> nat \<Rightarrow> ('n, 'g, 'a, 'r) XState
    \<Rightarrow> ('n, 'g, 'a, 'r) XState option" where
  "spawn_frame E childDepth i s =
     (if i < length (genStack s) then
        (let e = genStack s ! i in
         if seen e < g_numChildren (gen e) then
           (case gen_next_child E (g_iter (gen e)) of
              None \<Rightarrow> None
            | Some (c, g') \<Rightarrow>
                (case createTask (childDepth + i + 1) c
                        (s\<lparr>genStack := (genStack s)
                             [i := e\<lparr>seen := seen e + 1, gen := (gen e)\<lparr>g_iter := g'\<rparr>\<rparr>]\<rparr>) of
                   (fut, s') \<Rightarrow>
                     spawn_frame E childDepth i (s'\<lparr>childFutures := childFutures s' @ [fut]\<rparr>)))
         else Some s)
      else None)"
  by pat_completeness auto
termination
proof (relation "measure (\<lambda>(E, childDepth, i, s).
    g_numChildren (gen (genStack s ! i)) - seen (genStack s ! i))", goal_cases)
  case 1
  show ?case by simp
next
  case (2 E childDepth i s e x2 c g' x y)
  then show ?case by (auto simp: createTask_def)
qed

declare spawn_frame.simps [simp del]

text \<open>
  The scan over the frames below the current one:
  \<^verbatim>\<open>for (auto i = 0; i < stackDepth; ++i) {
     if (genStack[i].seen < genStack[i].gen.numChildren) { <inner loop> break; } }\<close>
\<close>

function spawn_scan ::
  "('s, 'n, 'g, 'a, 'r) RandomEnv \<Rightarrow> nat \<Rightarrow> nat \<Rightarrow> ('n, 'g, 'a, 'r) XState
    \<Rightarrow> ('n, 'g, 'a, 'r) XState option" where
  "spawn_scan E childDepth i s =
     (if int i < stackDepth s then
        (if i < length (genStack s) then
           (if seen (genStack s ! i) < g_numChildren (gen (genStack s ! i))
            then spawn_frame E childDepth i s
            else spawn_scan E childDepth (i + 1) s)
         else None)
      else Some s)"
  by pat_completeness auto
termination
  by (relation "measure (\<lambda>(E, childDepth, i, s). nat (stackDepth s) - i)") auto

declare spawn_scan.simps [simp del]

text \<open>
  \<^verbatim>\<open>unsigned sp = (rand()<<15)+rand();\<close> with the results of the two calls, the left one
  first, reduced to 32 bits, and the test \<^verbatim>\<open>sp < 1073741824/params.spawnProbability\<close>.
\<close>

definition spawn_draw :: "('s, 'n, 'g, 'a, 'r) RandomEnv \<Rightarrow> nat \<Rightarrow> nat" where
  "spawn_draw E k = (rand E k * 2 ^ 15 + rand E (k + 1)) mod 2 ^ 32"

definition spawn_fires :: "('s, 'n, 'g, 'a, 'r) RandomEnv \<Rightarrow> Params \<Rightarrow> nat \<Rightarrow> bool" where
  "spawn_fires E params k = (spawn_draw E k < 1073741824 div spawnProbability params)"

text \<open>The block \<^verbatim>\<open>if (params.spawnProbability != 0) { ... }\<close> at the head of the loop body.\<close>

definition maybe_spawn ::
  "('s, 'n, 'g, 'a, 'r) RandomEnv \<Rightarrow> Params \<Rightarrow> nat \<Rightarrow> ('n, 'g, 'a, 'r) XState
    \<Rightarrow> ('n, 'g, 'a, 'r) XState option" where
  "maybe_spawn E params childDepth s =
     (if spawnProbability params \<noteq> 0 then
        (if spawn_fires E params (rand_calls s)
         then spawn_scan E childDepth 0 (s\<lparr>rand_calls := rand_calls s + 2\<rparr>)
         else Some (s\<lparr>rand_calls := rand_calls s + 2\<rparr>))
      else Some s)"

subsection \<open>expand\<close>

datatype 'x LoopStep = Again 'x | Return 'x | Abort

text \<open>
  The part of the loop body after the spawn block, for \<open>stackDepth \<ge> 0\<close>. An index into
  \<open>genStack\<close> outside the vector is undefined behaviour: \<open>Abort\<close>. \<open>Return\<close> is the
  \<^verbatim>\<open>return\<close> on \<^verbatim>\<open>ProcessNodeRet::Exit\<close>; \<open>Again\<close> is the end of the iteration, by
  \<^verbatim>\<open>continue\<close> or by falling through.
\<close>

definition advance ::
  "('s, 'n, 'g, 'a, 'r) RandomEnv \<Rightarrow> Params \<Rightarrow> 's \<Rightarrow> ('n, 'g, 'a, 'r) XState
    \<Rightarrow> ('n, 'g, 'a, 'r) XState LoopStep" where
  "advance E params space s =
     (let sd = nat (stackDepth s) in
      if sd < length (genStack s) then
        (let e = genStack s ! sd in
         if seen e < g_numChildren (gen e) then
           (if sd + 1 < length (genStack s) then
              (case gen_next_child E (g_iter (gen e)) of
                 None \<Rightarrow> Abort
               | Some (child, g') \<Rightarrow>
                   (let gs1 = (genStack s)[sd + 1 := (genStack s ! (sd + 1))\<lparr>node := child\<rparr>];
                        gs2 = gs1[sd := e\<lparr>gen := (gen e)\<lparr>g_iter := g'\<rparr>, seen := seen e + 1\<rparr>]
                    in case processNode E params space child (acc s) (registry s) of
                         (pn, acc', reg') \<Rightarrow>
                           (let s2 = s\<lparr>genStack := gs2, acc := acc', registry := reg',
                                       visited := visited s @ [child]\<rparr>
                            in case pn of
                                 Exit \<Rightarrow> Return s2
                               | Prune \<Rightarrow> Again s2
                               | Break \<Rightarrow>
                                   Again (s2\<lparr>stackDepth := stackDepth s2 - 1,
                                             depth := depth s2 - 1\<rparr>)
                               | Continue \<Rightarrow>
                                   (let childGen = Generator E space child;
                                        s3 = s2\<lparr>stackDepth := stackDepth s2 + 1,
                                                depth := depth s2 + 1\<rparr>
                                    in if isDepthBounded E \<and> depth s3 = int (maxDepth params)
                                       then Again (s3\<lparr>stackDepth := stackDepth s3 - 1,
                                                      depth := depth s3 - 1\<rparr>)
                                       else Again (s3\<lparr>genStack := (genStack s3)
                                              [sd + 1 := (genStack s3 ! (sd + 1))
                                                 \<lparr>seen := 0, gen := childGen\<rparr>]\<rparr>)))))
            else Abort)
         else Again (s\<lparr>stackDepth := stackDepth s - 1, depth := depth s - 1\<rparr>))
      else Abort)"

text \<open>
  One iteration of \<^verbatim>\<open>while (stackDepth >= 0)\<close>: the test of \<^verbatim>\<open>stopSearch\<close> in the decision
  mode, the spawn block, the move.
\<close>

definition Random_expand_body ::
  "('s, 'n, 'g, 'a, 'r) RandomEnv \<Rightarrow> Params \<Rightarrow> 's \<Rightarrow> nat \<Rightarrow> ('n, 'g, 'a, 'r) XState
    \<Rightarrow> ('n, 'g, 'a, 'r) XState LoopStep" where
  "Random_expand_body E params space childDepth s =
     (if isDecision E \<and> stopSearch E (registry s) then Return s
      else (case maybe_spawn E params childDepth s of
              None \<Rightarrow> Abort
            | Some s1 \<Rightarrow> advance E params space s1))"

text \<open>
  The loop. The tree the generator unfolds may be infinite, so the loop need not end: the
  first argument bounds the number of iterations.
\<close>

fun Random_expand_loop ::
  "nat \<Rightarrow> ('s, 'n, 'g, 'a, 'r) RandomEnv \<Rightarrow> Params \<Rightarrow> 's \<Rightarrow> nat \<Rightarrow> ('n, 'g, 'a, 'r) XState
    \<Rightarrow> ('n, 'g, 'a, 'r) XState Run" where
  "Random_expand_loop 0 E params space childDepth s =
     (if stackDepth s \<ge> 0 then Out_of_fuel else Finished s)"
| "Random_expand_loop (Suc fuel) E params space childDepth s =
     (if stackDepth s \<ge> 0 then
        (case Random_expand_body E params space childDepth s of
           Again s' \<Rightarrow> Random_expand_loop fuel E params space childDepth s'
         | Return s' \<Rightarrow> Finished s'
         | Abort \<Rightarrow> Undefined_behaviour)
      else Finished s)"

text \<open>
  \<^verbatim>\<open>expand(space, n, params, acc, childFutures, childDepth)\<close>. \<open>s\<close> holds the caller's
  \<open>acc\<close> and \<open>childFutures\<close> and the state of the process; the stack and the two
  depths are set up here.
\<close>

definition Random_expand_init ::
  "('s, 'n, 'g, 'a, 'r) RandomEnv \<Rightarrow> 's \<Rightarrow> 'n \<Rightarrow> nat \<Rightarrow> ('n, 'g, 'a, 'r) XState
    \<Rightarrow> ('n, 'g, 'a, 'r) XState" where
  "Random_expand_init E space n childDepth s =
     s\<lparr>genStack := replicate (maxStackDepth E) \<lparr>seen = 0, node = n, gen = Generator E space n\<rparr>,
       stackDepth := 0,
       depth := int childDepth,
       acc := (if isEnumeration E then accumulate E n (acc s) else acc s),
       visited := visited s @ [n]\<rparr>"

definition Random_expand ::
  "nat \<Rightarrow> ('s, 'n, 'g, 'a, 'r) RandomEnv \<Rightarrow> Params \<Rightarrow> 's \<Rightarrow> 'n \<Rightarrow> nat \<Rightarrow> ('n, 'g, 'a, 'r) XState
    \<Rightarrow> ('n, 'g, 'a, 'r) XState Run" where
  "Random_expand fuel E params space n childDepth s =
     Random_expand_loop fuel E params space childDepth (Random_expand_init E space n childDepth s)"

subsection \<open>subtreeTask and the scheduler\<close>

text \<open>
  \<^verbatim>\<open>subtreeTask(taskRoot, childDepth, donePromiseId)\<close> up to its last statement: a fresh
  enumerator and an empty \<^verbatim>\<open>childFutures\<close>, \<^verbatim>\<open>expand\<close>, and in the enumeration mode
  \<^verbatim>\<open>updateEnumerator\<close>. The last statement hands \<^verbatim>\<open>childFutures\<close> and the promise to the
  continuation modelled in the section on termination detection.
\<close>

definition subtreeTask ::
  "nat \<Rightarrow> ('s, 'n, 'g, 'a, 'r) RandomEnv \<Rightarrow> Params \<Rightarrow> 's \<Rightarrow> 'n \<Rightarrow> nat \<Rightarrow> ('n, 'g, 'a, 'r) XState
    \<Rightarrow> ('n, 'g, 'a, 'r) XState Run" where
  "subtreeTask fuel E params space taskRoot childDepth s =
     (case Random_expand fuel E params space taskRoot childDepth
             (s\<lparr>acc := new_Enum E, childFutures := []\<rparr>) of
        Finished s' \<Rightarrow>
          Finished (if isEnumeration E
                    then s'\<lparr>registry := updateEnumerator E (acc s') (registry s')\<rparr> else s')
      | Undefined_behaviour \<Rightarrow> Undefined_behaviour
      | Out_of_fuel \<Rightarrow> Out_of_fuel)"

text \<open>
  The schedulers, as one worker: while the workpool holds a task, the policy chooses one
  (\<open>choose_task\<close>, an index into the pool), the task is removed and run. \<open>fuel\<close> bounds
  the iterations of each \<^verbatim>\<open>expand\<close>, the first argument the number of tasks run.
\<close>

fun run_tasks ::
  "nat \<Rightarrow> nat \<Rightarrow> ('s, 'n, 'g, 'a, 'r) RandomEnv \<Rightarrow> Params \<Rightarrow> 's \<Rightarrow> ('n, 'g, 'a, 'r) XState
    \<Rightarrow> ('n, 'g, 'a, 'r) XState Run" where
  "run_tasks 0 fuel E params space s =
     (if workpool s = [] then Finished s else Out_of_fuel)"
| "run_tasks (Suc k) fuel E params space s =
     (if workpool s = [] then Finished s
      else (let j = choose_task E (workpool s) mod length (workpool s) in
            case workpool s ! j of
              (pid, childDepth, taskRoot) \<Rightarrow>
                (case subtreeTask fuel E params space taskRoot childDepth
                        (s\<lparr>workpool := take j (workpool s) @ drop (j + 1) (workpool s)\<rparr>) of
                   Finished s' \<Rightarrow> run_tasks k fuel E params space s'
                 | Undefined_behaviour \<Rightarrow> Undefined_behaviour
                 | Out_of_fuel \<Rightarrow> Out_of_fuel)))"

text \<open>
  The work of \<^verbatim>\<open>Random::search\<close> between the start and the stop of the schedulers:
  \<^verbatim>\<open>createTask(1, root)\<close>, then the schedulers run the tasks.
\<close>

definition search_tasks ::
  "nat \<Rightarrow> nat \<Rightarrow> ('s, 'n, 'g, 'a, 'r) RandomEnv \<Rightarrow> Params \<Rightarrow> 's \<Rightarrow> 'n \<Rightarrow> ('n, 'g, 'a, 'r) XState
    \<Rightarrow> ('n, 'g, 'a, 'r) XState Run" where
  "search_tasks k fuel E params space root s =
     run_tasks k fuel E params space (snd (createTask 1 root s))"

subsection \<open>Finite trees as search spaces\<close>

text \<open>
  A finite tree: a node is the subtree below it. Its generator knows the number of the
  children and hands them out in order.
\<close>

datatype 'a tree = Node 'a "'a tree list"

definition tree_Generator :: "'s \<Rightarrow> 'a tree \<Rightarrow> 'a tree list Gen" where
  "tree_Generator space n = (case n of Node a cs \<Rightarrow> \<lparr>g_numChildren = length cs, g_iter = cs\<rparr>)"

definition tree_next :: "'a tree list \<Rightarrow> ('a tree \<times> 'a tree list) option" where
  "tree_next cs = (case cs of [] \<Rightarrow> None | c # cs' \<Rightarrow> Some (c, cs'))"

fun height :: "'a tree \<Rightarrow> nat" where
  "height (Node a cs) = (if cs = [] then 0 else 1 + Max (set (map height cs)))"

text \<open>All nodes of a tree, and the nodes on its first \<open>k\<close> levels.\<close>

fun nodes :: "'a tree \<Rightarrow> 'a tree multiset" where
  "nodes (Node a cs) = {#Node a cs#} + sum_list (map nodes cs)"

fun nodes_upto :: "nat \<Rightarrow> 'a tree \<Rightarrow> 'a tree multiset" where
  "nodes_upto 0 t = {#}"
| "nodes_upto (Suc k) (Node a cs) = {#Node a cs#} + sum_list (map (nodes_upto k) cs)"

subsection \<open>Notions for stating what a spawn does\<close>

text \<open>The next \<open>k\<close> children a generator hands out, and the generator after them.\<close>

fun take_children ::
  "('s, 'n, 'g, 'a, 'r) RandomEnv \<Rightarrow> 'g \<Rightarrow> nat \<Rightarrow> ('n list \<times> 'g) option" where
  "take_children E g 0 = Some ([], g)"
| "take_children E g (Suc k) =
     (case gen_next_child E g of
        None \<Rightarrow> None
      | Some (c, g') \<Rightarrow>
          (case take_children E g' k of
             None \<Rightarrow> None
           | Some (cs, g'') \<Rightarrow> Some (c # cs, g'')))"

text \<open>
  The state after the children \<open>cs\<close> of the frame \<open>i\<close> were made tasks: the frame has
  seen them and its generator is \<open>g'\<close>, the workpool holds one task per child, in order, at
  the child depth \<open>childDepth + i + 1\<close>, and \<open>childFutures\<close> holds their futures. No
  other frame and no other field differs.
\<close>

definition after_spawn ::
  "nat \<Rightarrow> nat \<Rightarrow> 'n list \<Rightarrow> 'g \<Rightarrow> ('n, 'g, 'a, 'r) XState \<Rightarrow> ('n, 'g, 'a, 'r) XState" where
  "after_spawn childDepth i cs g' s =
     s\<lparr>genStack := (genStack s)
          [i := (genStack s ! i)\<lparr>seen := seen (genStack s ! i) + length cs,
                                 gen := (gen (genStack s ! i))\<lparr>g_iter := g'\<rparr>\<rparr>],
       workpool := workpool s @
          map (\<lambda>(pid, c). (pid, childDepth + i + 1, c))
            (zip [next_promise s ..< next_promise s + length cs] cs),
       next_promise := next_promise s + length cs,
       childFutures := childFutures s @ [next_promise s ..< next_promise s + length cs]\<rparr>"

text \<open>The frame \<open>j\<close> has a child it has not seen.\<close>

definition unseen :: "('n, 'g, 'a, 'r) XState \<Rightarrow> nat \<Rightarrow> bool" where
  "unseen s j = (seen (genStack s ! j) < g_numChildren (gen (genStack s ! j)))"

subsection \<open>An instance to evaluate on\<close>

text \<open>
  Modelled from the spec: \<^verbatim>\<open>processNode\<close> for the optimisation mode without a bound
  function (section 4.5): nothing is pruned, a child whose objective improves on the best
  known one installs its objective, the answer is \<open>Continue\<close>. The registry is the best
  objective, a node's objective its label. The first two calls of \<^verbatim>\<open>rand()\<close> return 32767,
  all later ones 0, as a 15-bit \<^verbatim>\<open>rand()\<close> may. The stack has four frames.
\<close>

definition label :: "'a tree \<Rightarrow> 'a" where
  "label n = (case n of Node a cs \<Rightarrow> a)"

definition example_RandomEnv :: "(unit, nat tree, nat tree list, nat, nat) RandomEnv" where
  "example_RandomEnv =
     \<lparr>Generator = tree_Generator,
      gen_next_child = tree_next,
      processNode = (\<lambda>params space n a r. (Continue, a, max r (label n))),
      new_Enum = 0,
      accumulate = (\<lambda>n a. a + 1),
      updateEnumerator = (\<lambda>a r. r),
      stopSearch = (\<lambda>r. False),
      rand = (\<lambda>k. if k < 2 then 32767 else 0),
      isEnumeration = False,
      isDecision = False,
      isDepthBounded = False,
      maxStackDepth = 4,
      choose_task = (\<lambda>pool. 0)\<rparr>"

text \<open>
  The example tree: the root 0 has the children 1, 2 and 3, and 1 has the child 4. The
  state of the process before the search, and the state of a task that has moved from the
  root into the node 1 after two calls of \<^verbatim>\<open>rand()\<close>.
\<close>

definition example_tree :: "nat tree" where
  "example_tree = Node 0 [Node 1 [Node 4 []], Node 2 [], Node 3 []]"

definition example_start :: "(nat tree, nat tree list, nat, nat) XState" where
  "example_start =
     \<lparr>genStack = [], stackDepth = - 1, depth = 0, acc = 0, childFutures = [], registry = 0,
      rand_calls = 0, workpool = [], next_promise = 0, visited = []\<rparr>"

definition example_XState :: "(nat tree, nat tree list, nat, nat) XState" where
  "example_XState =
     \<lparr>genStack =
        [\<lparr>seen = 1, node = example_tree,
          gen = \<lparr>g_numChildren = 3, g_iter = [Node 2 [], Node 3 []]\<rparr>\<rparr>,
         \<lparr>seen = 0, node = Node 1 [Node 4 []],
          gen = \<lparr>g_numChildren = 1, g_iter = [Node 4 []]\<rparr>\<rparr>,
         \<lparr>seen = 0, node = example_tree, gen = tree_Generator () example_tree\<rparr>,
         \<lparr>seen = 0, node = example_tree, gen = tree_Generator () example_tree\<rparr>],
      stackDepth = 1, depth = 2, acc = 0, childFutures = [], registry = 1,
      rand_calls = 2, workpool = [], next_promise = 1, visited = [example_tree, Node 1 [Node 4 []]]\<rparr>"

subsection \<open>Notions for stating which nodes a search visits\<close>

text \<open>
  \<open>lim\<close> is the depth at which \<^verbatim>\<open>expand\<close> counts a node without moving into it: the
  parameter \<^verbatim>\<open>maxDepth\<close> when the skeleton is \<^verbatim>\<open>DepthLimited\<close>, and none otherwise. The depth
  of a task's root is the task's \<open>childDepth\<close>; the search submits its root with 1.
\<close>

definition depth_limit :: "('s, 'n, 'g, 'a, 'r) RandomEnv \<Rightarrow> Params \<Rightarrow> int option" where
  "depth_limit E params = (if isDepthBounded E then Some (int (maxDepth params)) else None)"

text \<open>
  \<open>below lim e n\<close>: the node \<open>n\<close> of depth \<open>e\<close> and the nodes under it down to the
  depth \<open>lim\<close>. \<open>task_nodes lim e n\<close>: the same for the root of a task, which is moved
  into whatever its depth.
\<close>

fun below :: "int option \<Rightarrow> int \<Rightarrow> 'a tree \<Rightarrow> 'a tree multiset" where
  "below lim e (Node a cs) =
     {#Node a cs#} + (if lim = Some e then {#} else sum_list (map (below lim (e + 1)) cs))"

definition task_nodes :: "int option \<Rightarrow> int \<Rightarrow> 'a tree \<Rightarrow> 'a tree multiset" where
  "task_nodes lim e n =
     (case n of Node a cs \<Rightarrow> {#Node a cs#} + sum_list (map (below lim (e + 1)) cs))"

definition pool_nodes :: "int option \<Rightarrow> (nat \<times> nat \<times> 'a tree) list \<Rightarrow> 'a tree multiset" where
  "pool_nodes lim pool = sum_list (map (\<lambda>(pid, d, n). task_nodes lim (int d) n) pool)"

text \<open>
  The nodes the frames \<open>0 .. stackDepth\<close> of a task still have to hand out, with what is
  under them: the work left on the stack.
\<close>

definition frame_todo ::
  "int option \<Rightarrow> nat \<Rightarrow> nat \<Rightarrow> ('a tree, 'a tree list) StackElem \<Rightarrow> 'a tree multiset" where
  "frame_todo lim childDepth i e =
     sum_list (map (below lim (int childDepth + int i + 1)) (g_iter (gen e)))"

definition todo ::
  "int option \<Rightarrow> nat \<Rightarrow> ('a tree, 'a tree list, 'a2, 'r) XState \<Rightarrow> 'a tree multiset" where
  "todo lim childDepth s =
     (\<Sum>i < nat (stackDepth s + 1). frame_todo lim childDepth i (genStack s ! i))"

text \<open>
  The states a task on a finite tree is in at the head of its loop: the stack is the vector
  of \<open>maxStackDepth\<close> frames, \<open>depth\<close> moves with \<open>stackDepth\<close>, every frame in use has
  seen what its generator has handed out, what is left fits the stack, and no frame below
  the current one is at the depth limit.
\<close>

definition stack_ok ::
  "('s, 'a tree, 'a tree list, 'a2, 'r) RandomEnv \<Rightarrow> Params \<Rightarrow> nat
    \<Rightarrow> ('a tree, 'a tree list, 'a2, 'r) XState \<Rightarrow> bool" where
  "stack_ok E params childDepth s =
     (length (genStack s) = maxStackDepth E
      \<and> - 1 \<le> stackDepth s \<and> stackDepth s < int (maxStackDepth E)
      \<and> depth s = int childDepth + stackDepth s
      \<and> (\<forall>i. int i \<le> stackDepth s \<longrightarrow>
            seen (genStack s ! i) + length (g_iter (gen (genStack s ! i)))
              = g_numChildren (gen (genStack s ! i))
            \<and> (\<forall>n \<in> set (g_iter (gen (genStack s ! i))). i + 1 + height n < maxStackDepth E))
      \<and> (\<forall>i. int i < stackDepth s \<longrightarrow>
            depth_limit E params \<noteq> Some (int childDepth + int i + 1)))"

text \<open>
  The nodes a search from the root reaches. The root is at depth 1 and \<^verbatim>\<open>expand\<close> compares
  \<^verbatim>\<open>depth\<close> with \<^verbatim>\<open>maxDepth\<close> after the increment, so the first comparison is at depth 2:
  a \<^verbatim>\<open>DepthLimited\<close> search with \<^verbatim>\<open>maxDepth\<close> at least 2 reaches the first \<^verbatim>\<open>maxDepth\<close>
  levels, and every other search the whole tree.
\<close>

definition reached ::
  "('s, 'n, 'g, 'a, 'r) RandomEnv \<Rightarrow> Params \<Rightarrow> 'x tree \<Rightarrow> 'x tree multiset" where
  "reached E params root =
     (if isDepthBounded E \<and> 2 \<le> maxDepth params then nodes_upto (maxDepth params) root
      else nodes root)"

text \<open>A chain of five nodes: its height is the number of frames of the example's stack.\<close>

definition example_chain :: "nat tree" where
  "example_chain = Node 0 [Node 1 [Node 2 [Node 3 [Node 4 []]]]]"


section \<open>Termination detection: the completion promise of a task\<close>

text \<open>
  A promise is identified by a number, and its future is ready once the promise has been
  set. The statements of a task that touch promises and futures:
  \<^verbatim>\<open>hpx::wait_all(futs)\<close> and \<^verbatim>\<open>posIdx->waitFutures()\<close>, which return once every future is
  ready; \<^verbatim>\<open>set_value_action\<close> on a promise; \<^verbatim>\<open>posManager::done_action\<close>; and
  \<^verbatim>\<open>tasks_required_sem.signal()\<close>.
\<close>

datatype Stmt = Wait_all "nat list" | Set_value nat | Done_action int | Semaphore_signal

text \<open>
  A thread is the list of the statements it has still to run, here with what the
  process has seen so far: the promises that have been set, latest first, the task indexes
  reported done and the number of signals.
\<close>

record Thread =
  stmts :: "Stmt list"
  ready :: "nat list"
  done_tasks :: "int list"
  signals :: nat

text \<open>
  The thread runs among others: in a tick either some other task sets its promise, or the
  thread runs its next statement, which a wait does only when all its futures are ready.
\<close>

datatype Tick = Child_done nat | Step

fun tick :: "Tick \<Rightarrow> Thread \<Rightarrow> Thread" where
  "tick (Child_done f) t = t\<lparr>ready := f # ready t\<rparr>"
| "tick Step t =
     (case stmts t of
        [] \<Rightarrow> t
      | Wait_all futs # rest \<Rightarrow> if set futs \<subseteq> set (ready t) then t\<lparr>stmts := rest\<rparr> else t
      | Set_value p # rest \<Rightarrow> t\<lparr>stmts := rest, ready := p # ready t\<rparr>
      | Done_action idx # rest \<Rightarrow> t\<lparr>stmts := rest, done_tasks := idx # done_tasks t\<rparr>
      | Semaphore_signal # rest \<Rightarrow> t\<lparr>stmts := rest, signals := signals t + 1\<rparr>)"

definition run_schedule :: "Tick list \<Rightarrow> Thread \<Rightarrow> Thread" where
  "run_schedule ticks t = fold tick ticks t"

definition start_thread :: "Stmt list \<Rightarrow> Thread" where
  "start_thread body = \<lparr>stmts = body, ready = [], done_tasks = [], signals = 0\<rparr>"

text \<open>
  The last statement of \<^verbatim>\<open>Random::subtreeTask\<close>,
  \<^verbatim>\<open>hpx::apply(hpx::util::bind([=](std::vector<hpx::future<void> > & futs) {
       hpx::wait_all(futs);
       hpx::async<set_value_action>(donePromiseId, true); }, std::move(childFutures)));\<close>
  starts a thread with the futures of the tasks that \<^verbatim>\<open>expand\<close> has created.
\<close>

definition subtreeTask_continuation ::
  "nat \<Rightarrow> ('s, 'n, 'g, 'a, 'r) RandomEnv \<Rightarrow> Params \<Rightarrow> 's \<Rightarrow> 'n \<Rightarrow> nat \<Rightarrow> nat
    \<Rightarrow> ('n, 'g, 'a, 'r) XState \<Rightarrow> Stmt list Run" where
  "subtreeTask_continuation fuel E params space taskRoot childDepth donePromiseId s =
     (case subtreeTask fuel E params space taskRoot childDepth s of
        Finished s' \<Rightarrow> Finished [Wait_all (childFutures s'), Set_value donePromiseId]
      | Undefined_behaviour \<Rightarrow> Undefined_behaviour
      | Out_of_fuel \<Rightarrow> Out_of_fuel)"

text \<open>
  \<^verbatim>\<open>searchChildTask(posIdx, p, idx, posMgr)\<close> of the Indexed skeleton: the state after
  \<^verbatim>\<open>getStartingNode\<close> and \<^verbatim>\<open>expand\<close>, and the statements that follow them, in the order of
  the source:
  \<^verbatim>\<open>hpx::async<set_value_action>(p, true).get();
  hpx::async<posManager::done_action>(posMgr, idx).get();
  workstealing::indexed::tasks_required_sem.signal();
  posIdx->waitFutures();\<close>
  \<^verbatim>\<open>positionIndex\<close> is not among the sources: \<open>path\<close> is what \<^verbatim>\<open>posIdx->getPath()\<close> returns
  and \<open>futures\<close> reads the futures a position index holds, those of the tasks that were
  stolen from it.
\<close>

definition searchChildTask ::
  "('s, 'n, 'b :: linorder, 'g, 'p, 'r) IndexedEnv \<Rightarrow> 's \<Rightarrow> bool \<Rightarrow> nat \<Rightarrow> 'n \<Rightarrow> nat list
    \<Rightarrow> ('p \<Rightarrow> nat list) \<Rightarrow> nat \<Rightarrow> int \<Rightarrow> ('n, 'p, 'r) IState
    \<Rightarrow> (('n, 'p, 'r) IState \<times> Stmt list) option" where
  "searchChildTask E sp pl fuel root path futures p idx s =
     (case getStartingNode E sp root path of
        None \<Rightarrow> None
      | Some (c, invoked) \<Rightarrow>
          (case expand E sp pl fuel c s of
             None \<Rightarrow> None
           | Some s' \<Rightarrow>
               Some (s', [Set_value p, Done_action idx, Semaphore_signal,
                          Wait_all (futures (ipos s'))])))"

section \<open>Properties of the maxclique generator\<close>

lemma nth_loop_done: "nth_loop po (int pos) pos cands = Some cands"
proof -
  have "int pos mod 2 ^ 32 \<le> int pos"
    by (rule zmod_le_nonneg_dividend) simp
  then show ?thesis
    by (subst nth_loop.simps) simp
qed

lemma index_mod:
  "0 \<le> i \<Longrightarrow> i < int array_size \<Longrightarrow> i mod 2 ^ 32 = i"
  "0 \<le> i \<Longrightarrow> i < int array_size \<Longrightarrow> i mod 4294967296 = i"
  by (simp_all add: array_size_def NWORDS_def bits_per_word_def)

lemma nth_loop_step:
  assumes "int pos < i" and "i < int array_size"
  shows "nth_loop po i pos cands = nth_loop po (i - 1) pos (unset (po (nat i)) cands)"
proof -
  have "i < 2 ^ 32" using assms(2) by (simp add: array_size_def NWORDS_def bits_per_word_def)
  with assms(1) have "i mod 2 ^ 32 = i" by simp
  with assms show ?thesis
    by (subst nth_loop.simps) (simp add: arr_read_def)
qed

lemma gen_next_Some:
  assumes "0 \<le> gen_v g" and "gen_v g < int array_size"
  shows "gen_next g =
    Some (\<lparr>sol = \<lparr>members = members (childSol g) @ [p_order g (nat (gen_v g))],
                  colours = int (colourClass g (nat (gen_v g))) - 1\<rparr>,
           node_size = childBnd g,
           remaining = intersect_with_row (graph g) (p_order g (nat (gen_v g))) (gen_p g)\<rparr>,
          g\<lparr>gen_p := unset (p_order g (nat (gen_v g))) (gen_p g), gen_v := gen_v g - 1\<rparr>)"
  using assms by (simp add: gen_next_def arr_read_def)

lemma gen_nth_in_range:
  assumes "int n \<le> gen_v g" and "gen_v g < int array_size"
  shows "gen_nth g n =
    map_option (\<lambda>cands. (nth_node g (nat (gen_v g - int n)) cands, g))
      (nth_loop (p_order g) (gen_v g) (nat (gen_v g - int n)) (gen_p g))"
proof -
  have "0 \<le> gen_v g - int n" and "gen_v g - int n < int array_size"
    using assms by auto
  then have "(gen_v g - int n) mod 2 ^ 32 = gen_v g - int n"
    by (rule index_mod)
  then show ?thesis
    using assms unfolding gen_nth_def Let_def
    by (simp add: arr_read_def nth_node_def split: option.splits)
qed

text \<open>
  Claim C8. In a state of the maxclique generator with at least \<open>k + 1\<close> children remaining
  (\<open>k \<le> v\<close>; the index \<open>v\<close> is inside the arrays in every state of the program),
  \<^verbatim>\<open>nth(k)\<close> returns exactly the node that the \<open>(k+1)\<close>-th of successive calls of
  \<^verbatim>\<open>next()\<close> returns, and the generator after \<^verbatim>\<open>nth\<close> is the generator before it:
  \<open>p\<close>, \<open>v\<close>, \<open>childSol\<close> and \<open>childBnd\<close> are unchanged.
\<close>

theorem nth_is_kth_next:
  assumes "int k \<le> gen_v g" and "gen_v g < int array_size"
  shows "\<exists>c g'. nexts k g = Some (c, g') \<and> gen_nth g k = Some (c, g)"
  using assms
proof (induction k arbitrary: g)
  case 0
  then have "nth_loop (p_order g) (gen_v g) (nat (gen_v g)) (gen_p g) = Some (gen_p g)"
    using nth_loop_done [of "p_order g" "nat (gen_v g)" "gen_p g"] by simp
  with 0 show ?case
    by (simp add: gen_next_Some gen_nth_in_range nth_node_def)
next
  case (Suc k)
  let ?x = "p_order g (nat (gen_v g))"
  let ?g' = "g\<lparr>gen_p := unset ?x (gen_p g), gen_v := gen_v g - 1\<rparr>"
  let ?pos = "nat (gen_v g - int (Suc k))"
  have v: "0 \<le> gen_v g" "gen_v g < int array_size" using Suc.prems by auto
  have k': "int k \<le> gen_v ?g'" "gen_v ?g' < int array_size" using Suc.prems by auto
  from Suc.IH [OF k'] obtain c g'' where
    a: "nexts k ?g' = Some (c, g'')" and b: "gen_nth ?g' k = Some (c, ?g')"
    by blast
  have pos': "nat (gen_v ?g' - int k) = ?pos"
    by simp
  have loop: "nth_loop (p_order g) (gen_v g) ?pos (gen_p g)
      = nth_loop (p_order g) (gen_v g - 1) ?pos (unset ?x (gen_p g))"
    using Suc.prems by (intro nth_loop_step) auto
  from b obtain cands where
    c: "nth_loop (p_order g) (gen_v g - 1) ?pos (unset ?x (gen_p g)) = Some cands"
    and d: "c = nth_node ?g' ?pos cands"
    unfolding gen_nth_in_range [OF k'] pos' by auto
  have "nexts (Suc k) g = Some (c, g'')"
    using a by (simp add: gen_next_Some [OF v])
  moreover have "gen_nth g (Suc k) = Some (c, g)"
    unfolding gen_nth_in_range [OF Suc.prems] loop c d
    by (simp add: nth_node_def)
  ultimately show ?case by blast
qed

theorem nth_is_kth_next_witness:
  "int 1 \<le> gen_v example_gen \<and> gen_v example_gen < int array_size \<and>
   (\<exists>c g'. nexts 1 example_gen = Some (c, g') \<and> gen_nth example_gen 1 = Some (c, example_gen))"
proof -
  have a: "int 1 \<le> gen_v example_gen"
    by (simp add: example_gen_def)
  have b: "gen_v example_gen < int array_size"
    by (simp add: example_gen_def array_size_def NWORDS_def bits_per_word_def)
  from a b nth_is_kth_next [OF a b] show ?thesis by blast
qed

lemma first_set_bit_in: "\<not> empty_bits q \<Longrightarrow> first_set_bit q |\<in>| q"
  by (simp add: empty_bits_def first_set_bit_def)

lemma colour_inner_props:
  assumes "q |\<subseteq>| p_left"
    and "colour_inner gr colour q p_left i po pb = (p_left', i', po', pb')"
  shows "i' + fcard p_left' = i + fcard p_left \<and> i \<le> i' \<and>
    (\<forall>a < i. pb' a = pb a) \<and> (\<forall>a. i \<le> a \<and> a < i' \<longrightarrow> pb' a = colour)"
  using assms
proof (induction gr colour q p_left i po pb rule: colour_inner.induct)
  case (1 gr colour q p_left i po pb)
  show ?case
  proof (cases "empty_bits q")
    case True
    with "1.prems"(2) show ?thesis by (simp add: colour_inner_done)
  next
    case False
    let ?v = "first_set_bit q"
    have vq: "?v |\<in>| q" using False by (rule first_set_bit_in)
    then have vp: "?v |\<in>| p_left" using "1.prems"(1) by auto
    have sub: "intersect_with_row_complement gr ?v (unset ?v q) |\<subseteq>| unset ?v p_left"
      using "1.prems"(1) by (auto simp: intersect_with_row_complement_def unset_def)
    have rec: "colour_inner gr colour (intersect_with_row_complement gr ?v (unset ?v q))
        (unset ?v p_left) (i + 1) (po(i := ?v)) (pb(i := colour)) = (p_left', i', po', pb')"
      using "1.prems"(2) unfolding colour_inner_unfold [OF False] .
    from "1.IH" [OF False refl sub rec]
    have ih: "i' + fcard p_left' = i + 1 + fcard (unset ?v p_left)" "i + 1 \<le> i'"
      "\<forall>a < i + 1. pb' a = (pb(i := colour)) a"
      "\<forall>a. i + 1 \<le> a \<and> a < i' \<longrightarrow> pb' a = colour"
      by blast+
    have card: "fcard p_left = Suc (fcard (unset ?v p_left))"
      unfolding unset_def using fcard_Suc_fminus1 [OF vp] by simp
    have "i' + fcard p_left' = i + fcard p_left" using ih(1) card by simp
    moreover have "i \<le> i'" using ih(2) by simp
    moreover have "\<forall>a < i. pb' a = pb a" using ih(3) by simp
    moreover have "\<forall>a. i \<le> a \<and> a < i' \<longrightarrow> pb' a = colour"
    proof (intro allI impI)
      fix a assume a: "i \<le> a \<and> a < i'"
      show "pb' a = colour"
      proof (cases "a = i")
        case True
        then show ?thesis using ih(3) by simp
      next
        case False
        with a ih(4) show ?thesis by simp
      qed
    qed
    ultimately show ?thesis by blast
  qed
qed

lemma colour_outer_props:
  assumes "colour_outer gr p_left colour i po pb = (po', pb')"
  shows "(\<forall>a < i. pb' a = pb a) \<and>
    (\<forall>a b. i \<le> a \<and> a \<le> b \<and> b < i + fcard p_left \<longrightarrow> colour < pb' a \<and> pb' a \<le> pb' b)"
  using assms
proof (induction gr p_left colour i po pb rule: colour_outer.induct)
  case (1 gr p_left colour i po pb)
  show ?case
  proof (cases "empty_bits p_left")
    case True
    then have "p_left = {||}" by (simp add: empty_bits_def)
    moreover from True "1.prems" have "pb' = pb"
      by (subst (asm) colour_outer.simps) simp
    ultimately show ?thesis by (simp add: fcard_fempty)
  next
    case False
    obtain pl1 i1 po1 pb1 where
      inner: "colour_inner gr (colour + 1) p_left p_left i po pb = (pl1, i1, po1, pb1)"
      by (metis prod_cases4)
    from colour_inner_props [OF _ inner]
    have in1: "i1 + fcard pl1 = i + fcard p_left" "i \<le> i1" "\<forall>a < i. pb1 a = pb a"
      "\<forall>a. i \<le> a \<and> a < i1 \<longrightarrow> pb1 a = colour + 1"
      by auto
    have rec: "colour_outer gr pl1 (colour + 1) i1 po1 pb1 = (po', pb')"
      using "1.prems" False inner by (subst (asm) colour_outer.simps) simp
    from "1.IH" [OF False inner [symmetric] refl refl rec]
    have ih: "\<forall>a < i1. pb' a = pb1 a"
      "\<forall>a b. i1 \<le> a \<and> a \<le> b \<and> b < i1 + fcard pl1 \<longrightarrow> colour + 1 < pb' a \<and> pb' a \<le> pb' b"
      by blast+
    have low: "pb' a = colour + 1" if "i \<le> a" "a < i1" for a
      using that ih(1) in1(4) by simp
    have high: "colour + 1 < pb' a" if "i1 \<le> a" "a < i + fcard p_left" for a
      using that ih(2) [rule_format, of a a] in1(1) by simp
    have "\<forall>a < i. pb' a = pb a"
      using ih(1) in1(2,3) by simp
    moreover have "colour < pb' a \<and> pb' a \<le> pb' b"
      if ab: "i \<le> a \<and> a \<le> b \<and> b < i + fcard p_left" for a b
    proof (cases "a < i1")
      case True
      then have a1: "pb' a = colour + 1" using ab low by simp
      show ?thesis
      proof (cases "b < i1")
        case True
        then have "pb' b = colour + 1" using ab low by simp
        with a1 show ?thesis by simp
      next
        case False
        then have "colour + 1 < pb' b" using ab high by simp
        with a1 show ?thesis by simp
      qed
    next
      case False
      then have "i1 \<le> a \<and> a \<le> b \<and> b < i1 + fcard pl1" using ab in1(1) by simp
      with ih(2) have "colour + 1 < pb' a \<and> pb' a \<le> pb' b" by blast
      then show ?thesis by simp
    qed
    ultimately show ?thesis by blast
  qed
qed

lemma colour_class_order_sorted:
  assumes "colour_class_order gr p po pb = (po', pb')" and "a \<le> b" and "b < popcount p"
  shows "pb' a \<le> pb' b"
  using colour_outer_props [OF assms(1) [unfolded colour_class_order_def]] assms(2,3)
  by (simp add: popcount_def)

lemma nexts_upperBound:
  assumes "int j \<le> gen_v g" and "gen_v g < int array_size"
  shows "\<exists>c g'. nexts j g = Some (c, g') \<and>
    upperBound sp c = childBnd g + int (colourClass g (nat (gen_v g) - j)) - 1"
  using assms
proof (induction j arbitrary: g)
  case 0
  then show ?case by (simp add: gen_next_Some upperBound_def)
next
  case (Suc j)
  let ?g' = "g\<lparr>gen_p := unset (p_order g (nat (gen_v g))) (gen_p g), gen_v := gen_v g - 1\<rparr>"
  have v: "0 \<le> gen_v g" "gen_v g < int array_size" using Suc.prems by auto
  have j': "int j \<le> gen_v ?g'" "gen_v ?g' < int array_size" using Suc.prems by auto
  have idx: "nat (gen_v ?g') - j = nat (gen_v g) - Suc j"
    using Suc.prems by (simp add: nat_diff_distrib')
  from Suc.IH [OF j'] idx show ?case
    by (simp add: gen_next_Some [OF v])
qed

text \<open>
  Claim C10. For every maxclique node (its candidate set fits the arrays, as every
  \<^verbatim>\<open>BitSet<NWORDS>\<close> does), the generator built for it returns a child at each of its
  \<open>numChildren\<close> successive calls of \<^verbatim>\<open>next()\<close>, and a later child's \<^verbatim>\<open>upperBound\<close>
  is at most an earlier child's: the bounds are non-increasing along the emitted order,
  because \<^verbatim>\<open>colour_class_order\<close> writes non-decreasing colours and \<^verbatim>\<open>next()\<close> reads them
  from the last written entry downwards.
\<close>

theorem next_bounds_non_increasing:
  assumes "popcount (remaining n) \<le> array_size" and "j \<le> k"
    and "k < numChildren (mk_GenNode gr po0 cc0 n)"
  shows "\<exists>cj gj ck gk.
    nexts j (mk_GenNode gr po0 cc0 n) = Some (cj, gj) \<and>
    nexts k (mk_GenNode gr po0 cc0 n) = Some (ck, gk) \<and>
    upperBound gr ck \<le> upperBound gr cj"
proof -
  let ?g = "mk_GenNode gr po0 cc0 n"
  obtain po cc where cco: "colour_class_order gr (remaining n) po0 cc0 = (po, cc)"
    by (metis surj_pair)
  have g: "colourClass ?g = cc" "gen_v ?g = int (popcount (remaining n)) - 1"
    "numChildren ?g = popcount (remaining n)"
    by (simp_all add: mk_GenNode_def cco)
  have kv: "int k \<le> gen_v ?g" and jv: "int j \<le> gen_v ?g" and va: "gen_v ?g < int array_size"
    using assms g by auto
  from nexts_upperBound [OF jv va, of gr] obtain cj gj where
    j: "nexts j ?g = Some (cj, gj)"
    "upperBound gr cj = childBnd ?g + int (cc (nat (gen_v ?g) - j)) - 1"
    using g(1) by auto
  from nexts_upperBound [OF kv va, of gr] obtain ck gk where
    k: "nexts k ?g = Some (ck, gk)"
    "upperBound gr ck = childBnd ?g + int (cc (nat (gen_v ?g) - k)) - 1"
    using g(1) by auto
  have "cc (nat (gen_v ?g) - k) \<le> cc (nat (gen_v ?g) - j)"
    using assms(2,3) g(2,3) by (intro colour_class_order_sorted [OF cco]) auto
  with j k show ?thesis by auto
qed

theorem next_bounds_non_increasing_witness:
  "popcount (remaining example_node) \<le> array_size \<and> (0::nat) \<le> 1 \<and>
   1 < numChildren (mk_GenNode example_graph (\<lambda>i. 0) (\<lambda>i. 0) example_node) \<and>
   (\<exists>cj gj ck gk.
      nexts 0 (mk_GenNode example_graph (\<lambda>i. 0) (\<lambda>i. 0) example_node) = Some (cj, gj) \<and>
      nexts 1 (mk_GenNode example_graph (\<lambda>i. 0) (\<lambda>i. 0) example_node) = Some (ck, gk) \<and>
      upperBound example_graph ck \<le> upperBound example_graph cj)"
proof -
  have pc: "popcount (remaining example_node) = 3"
    by (simp add: example_node_def popcount_def fcard_finsert_if)
  have a: "popcount (remaining example_node) \<le> array_size"
    unfolding pc by (simp add: array_size_def NWORDS_def bits_per_word_def)
  have b: "(0::nat) \<le> 1" by simp
  have c: "1 < numChildren (mk_GenNode example_graph (\<lambda>i. 0) (\<lambda>i. 0) example_node)"
    by (simp add: mk_GenNode_def pc split: prod.splits)
  from a b c next_bounds_non_increasing [OF a b c] show ?thesis by blast
qed

section \<open>Properties of the Indexed skeleton\<close>

lemma node_at_Nil: "node_at E sp root [] = root"
  by (subst node_at.simps) simp

lemma node_at_snoc:
  "node_at E sp root (qs @ [p]) =
   Gen_nth E (Gen_invoke E sp (node_at E sp root qs)) sp (node_at E sp root qs) p"
  by (subst node_at.simps) simp

lemma walk_path_node_at:
  "walk_path E sp ps (node_at E sp root qs, ivk) =
   (node_at E sp root (qs @ ps),
    ivk @ map (\<lambda>j. node_at E sp root (qs @ take j ps)) [0..<length ps])"
proof (induction ps arbitrary: qs ivk)
  case Nil
  then show ?case by simp
next
  case (Cons p ps)
  have "walk_path E sp (p # ps) (node_at E sp root qs, ivk) =
      walk_path E sp ps (node_at E sp root (qs @ [p]), ivk @ [node_at E sp root qs])"
    by (simp add: node_at_snoc)
  also have "\<dots> = (node_at E sp root ((qs @ [p]) @ ps),
      (ivk @ [node_at E sp root qs]) @
        map (\<lambda>j. node_at E sp root ((qs @ [p]) @ take j ps)) [0..<length ps])"
    by (rule Cons.IH)
  finally show ?case
    by (simp add: map_upt_Suc del: upt_Suc)
qed

text \<open>
  Claim C7. For every path \<open>[0, p1, ..., pk]\<close>, \<^verbatim>\<open>getStartingNode\<close> returns the node that
  is reached from the registry's root by constructing, level by level, the generator of the
  current node and taking its \<open>pi\<close>-th child with \<^verbatim>\<open>nth\<close>; the generators it constructs
  are those of the \<open>k\<close> nodes on the way. For the path \<open>[0]\<close> it returns the root and
  constructs no generator.
\<close>

theorem getStartingNode_walks_nth:
  "getStartingNode E sp root (0 # ps) =
     Some (node_at E sp root ps, map (\<lambda>j. node_at E sp root (take j ps)) [0..<length ps])
   \<and> getStartingNode E sp root [0] = Some (root, [])"
proof -
  have "walk_path E sp ps (root, []) =
      (node_at E sp root ps, map (\<lambda>j. node_at E sp root (take j ps)) [0..<length ps])"
    using walk_path_node_at [of E sp ps root "[]" "[]"] by (simp add: node_at_Nil)
  then show ?thesis
    by (cases ps) (simp_all add: getStartingNode_def node_at_Nil)
qed

text \<open>
  Claim C3. In the loop of the Indexed \<^verbatim>\<open>expand\<close>, let \<open>c\<close> be the child the iteration
  takes for the position \<^verbatim>\<open>getNextPosition\<close> returned, and let its user bound be not
  strictly better than \<^verbatim>\<open>localBound_\<close> as loaded in that iteration. With \<^verbatim>\<open>PruneLevel\<close>
  the loop ends at once: \<^verbatim>\<open>expand\<close> returns the state it had, with \<^verbatim>\<open>pruneLevel\<close> called
  on the position index, so neither \<open>c\<close> nor any later sibling is entered. Without
  \<^verbatim>\<open>PruneLevel\<close> the loop goes on with the next iteration in that same state: \<open>c\<close> is not
  entered, and the registry and incumbent are not touched.
\<close>

theorem expand_prunes:
  assumes "getNextPosition E (ipos s) = (nextPos, pos1)" and "0 \<le> nextPos"
    and "take_child E sp n g i nextPos = (c, g', i')"
    and "Bound_invoke E sp c \<le> localBound_load E (ireg s)"
  shows "expand_loop E sp True (Suc f) n g i s = Some (s\<lparr>ipos := pruneLevel E pos1\<rparr>)
    \<and> expand_loop E sp False (Suc f) n g i s =
        expand_loop E sp False f n g' (i' + 1) (s\<lparr>ipos := pos1\<rparr>)"
  using assms by simp

lemma expand_loop_descend:
  assumes "getNextPosition E (ipos s) = (nextPos, pos1)" and "0 \<le> nextPos"
    and "take_child E sp n g i nextPos = (c, g', i')"
    and "localBound_load E (ireg s) < Bound_invoke E sp c"
  shows "expand_loop E sp pl (Suc f) n g i s =
     (case expand E sp pl f c
             (s\<lparr>ipos := preExpand E pos1 i',
                ireg := update_incumbent_if_required E c (localBound_load E (ireg s)) (ireg s)\<rparr>) of
        None \<Rightarrow> None
      | Some s2 \<Rightarrow> expand_loop E sp pl f n g' (i' + 1) (s2\<lparr>ipos := postExpand E (ipos s2)\<rparr>))"
  using assms by (simp add: Let_def not_le [symmetric])

lemmas example_indexed_defs =
  example_IndexedEnv_def example_IState_def ex_child_def take_child_def
  pi_setNumChildren_def pi_getNextPosition_def pi_pruneLevel_def pi_preExpand_def
  pi_postExpand_def cl_localBound_def cl_updateRegistryBound_def cl_broadcast_def
  cl_updateIncumbent_def update_incumbent_if_required_def

theorem getStartingNode_walks_nth_witness:
  "getStartingNode example_IndexedEnv () (4, 1) [0, 1, 0] = Some ((7, - 1), [(4, 1), (6, 0)])
   \<and> getStartingNode example_IndexedEnv () (4, 1) [0] = Some ((4, 1), [])"
  using getStartingNode_walks_nth [of example_IndexedEnv "()" "(4, 1)" "[1, 0]"]
  by (simp add: node_at.simps example_indexed_defs)

theorem expand_prunes_witness:
  "getNextPosition example_IndexedEnv (ipos example_IState)
     = (0, \<lparr>idx_path = [0], idx_levels = [(2, 1)]\<rparr>)
   \<and> (0 :: int) \<le> 0
   \<and> take_child example_IndexedEnv () (4, 1) ((4, 1), 0) 0 0 = ((5, 0), ((4, 1), 1), 0)
   \<and> Bound_invoke example_IndexedEnv () (5, 0)
       \<le> localBound_load example_IndexedEnv (ireg example_IState)
   \<and> expand_loop example_IndexedEnv () True (Suc 2) (4, 1) ((4, 1), 0) 0 example_IState
       = Some (example_IState\<lparr>ipos :=
           pruneLevel example_IndexedEnv \<lparr>idx_path = [0], idx_levels = [(2, 1)]\<rparr>\<rparr>)
   \<and> expand_loop example_IndexedEnv () False (Suc 2) (4, 1) ((4, 1), 0) 0 example_IState
       = expand_loop example_IndexedEnv () False 2 (4, 1) ((4, 1), 1) (0 + 1)
           (example_IState\<lparr>ipos := \<lparr>idx_path = [0], idx_levels = [(2, 1)]\<rparr>\<rparr>)"
proof -
  have a: "getNextPosition example_IndexedEnv (ipos example_IState)
     = (0, \<lparr>idx_path = [0], idx_levels = [(2, 1)]\<rparr>)"
    by (simp add: example_indexed_defs)
  have b: "(0 :: int) \<le> 0" by simp
  have c: "take_child example_IndexedEnv () (4, 1) ((4, 1), 0) 0 0 = ((5, 0), ((4, 1), 1), 0)"
    by (simp add: example_indexed_defs)
  have d: "Bound_invoke example_IndexedEnv () (5, 0)
       \<le> localBound_load example_IndexedEnv (ireg example_IState)"
    by (simp add: example_indexed_defs)
  from a b c d expand_prunes [OF a b c d, of 2] show ?thesis by blast
qed

text \<open>
  Claim C4. \<^verbatim>\<open>Bound\<close> gives an upper bound: the objective of the child \<open>c\<close> of an
  iteration is not above \<^verbatim>\<open>Bound::invoke(0, space, c)\<close>. Whenever the objective of \<open>c\<close> is
  strictly better than \<^verbatim>\<open>localBound_\<close> as loaded, the skeleton calls
  \<^verbatim>\<open>updateRegistryBound\<close> with the objective on the local registry, broadcasts the same call
  to all localities, and calls \<^verbatim>\<open>updateIncumbent\<close> with \<open>c\<close>, in this order, and enters
  \<open>c\<close> in the state these calls leave.
\<close>

theorem expand_updates_incumbent:
  assumes "getNextPosition E (ipos s) = (nextPos, pos1)" and "0 \<le> nextPos"
    and "take_child E sp n g i nextPos = (c, g', i')"
    and "objective E c \<le> Bound_invoke E sp c"
    and "localBound_load E (ireg s) < objective E c"
  shows "expand_loop E sp pl (Suc f) n g i s =
     (case expand E sp pl f c
             (s\<lparr>ipos := preExpand E pos1 i',
                ireg := updateIncumbent E c
                          (broadcast_updateRegistryBound E (objective E c)
                            (updateRegistryBound E (objective E c) (ireg s)))\<rparr>) of
        None \<Rightarrow> None
      | Some s2 \<Rightarrow> expand_loop E sp pl f n g' (i' + 1) (s2\<lparr>ipos := postExpand E (ipos s2)\<rparr>))"
proof -
  have "localBound_load E (ireg s) < Bound_invoke E sp c"
    using assms(5) assms(4) by (rule less_le_trans)
  from assms(5) expand_loop_descend [OF assms(1-3) this, of pl f] show ?thesis
    by (simp add: update_incumbent_if_required_def)
qed

theorem expand_updates_incumbent_witness:
  "getNextPosition example_IndexedEnv (ipos example_IState)
     = (0, \<lparr>idx_path = [0], idx_levels = [(2, 1)]\<rparr>)
   \<and> (0 :: int) \<le> 0
   \<and> take_child example_IndexedEnv () (4, 7) ((4, 7), 0) 0 0 = ((5, 6), ((4, 7), 1), 0)
   \<and> objective example_IndexedEnv (5, 6) \<le> Bound_invoke example_IndexedEnv () (5, 6)
   \<and> localBound_load example_IndexedEnv (ireg example_IState)
       < objective example_IndexedEnv (5, 6)
   \<and> expand_loop example_IndexedEnv () False (Suc 5) (4, 7) ((4, 7), 0) 0 example_IState =
     (case expand example_IndexedEnv () False 5 (5, 6)
             (example_IState
               \<lparr>ipos := preExpand example_IndexedEnv \<lparr>idx_path = [0], idx_levels = [(2, 1)]\<rparr> 0,
                ireg := updateIncumbent example_IndexedEnv (5, 6)
                  (broadcast_updateRegistryBound example_IndexedEnv
                    (objective example_IndexedEnv (5, 6))
                    (updateRegistryBound example_IndexedEnv
                      (objective example_IndexedEnv (5, 6)) (ireg example_IState)))\<rparr>) of
        None \<Rightarrow> None
      | Some s2 \<Rightarrow>
          expand_loop example_IndexedEnv () False 5 (4, 7) ((4, 7), 1) (0 + 1)
            (s2\<lparr>ipos := postExpand example_IndexedEnv (ipos s2)\<rparr>))"
proof -
  have a: "getNextPosition example_IndexedEnv (ipos example_IState)
     = (0, \<lparr>idx_path = [0], idx_levels = [(2, 1)]\<rparr>)"
    by (simp add: example_indexed_defs)
  have b: "(0 :: int) \<le> 0" by simp
  have c: "take_child example_IndexedEnv () (4, 7) ((4, 7), 0) 0 0 = ((5, 6), ((4, 7), 1), 0)"
    by (simp add: example_indexed_defs)
  have d: "objective example_IndexedEnv (5, 6) \<le> Bound_invoke example_IndexedEnv () (5, 6)"
    by (simp add: example_indexed_defs)
  have e: "localBound_load example_IndexedEnv (ireg example_IState)
       < objective example_IndexedEnv (5, 6)"
    by (simp add: example_indexed_defs)
  from a b c d e expand_updates_incumbent [OF a b c d e, of False 5] show ?thesis by blast
qed

text \<open>
  What the registry update of that evaluation installs: both localities hold the bound 5 and
  the incumbent is the child \<open>(5, 6)\<close>.
\<close>

lemma example_registry_update:
  "updateIncumbent example_IndexedEnv (5, 6)
     (broadcast_updateRegistryBound example_IndexedEnv (objective example_IndexedEnv (5, 6))
       (updateRegistryBound example_IndexedEnv (objective example_IndexedEnv (5, 6))
         (ireg example_IState)))
   = \<lparr>localBounds = [5, 5], cl_here = 0, globalIncumbent = (5, 6)\<rparr>"
  by (simp add: example_indexed_defs)

section \<open>Properties of the search drivers\<close>

text \<open>
  Claim C2 as stated fails for both drivers in the optimisation mode: \<^verbatim>\<open>Random::search\<close>
  constructs the incumbent after it has initialised the policy and started the schedulers,
  and the Indexed \<^verbatim>\<open>search\<close> constructs it before it broadcasts the registry
  initialisation.
\<close>

theorem search_order_counterexample:
  "map_option (in_order spec_search_order) (Random_search False False True False) = Some False
   \<and> in_order spec_search_order Indexed_search = False"
  by (simp add: Random_search_def Indexed_search_def spec_search_order_def)

text \<open>
  Claim C2, amended. \<^verbatim>\<open>Random::search\<close> performs, in this order: the broadcast of the
  registry initialisation, the initialisation of the policy, the start of the schedulers,
  then (optimisation and decision modes only) the construction of the incumbent, the
  broadcast of its handle and the installation of the initial bound, then the submission of
  the root task and the wait on its promise, the broadcast of the scheduler shutdown, and
  last the combined enumeration (enumeration mode) or the read of the incumbent. The Indexed
  \<^verbatim>\<open>search\<close> performs: construction of the incumbent, registry broadcast, installation of
  the root as incumbent, position managers, schedulers, root path and wait, shutdown,
  incumbent read. Nothing else is performed but the printing of the details when verbose.
\<close>

theorem search_order:
  "Random_search verbose enumeration optimisation decision =
     (if enumeration \<or> optimisation \<or> decision then
        Some ((if verbose then [PrintSkeletonDetails] else []) @
              [BroadcastInitRegistry, InitPolicy, BroadcastStartSchedulers] @
              (if optimisation \<or> decision
               then [NewIncumbent, BroadcastIncumbentHandle, InstallInitialBound] else []) @
              [SubmitRootTask, AwaitRootPromise, BroadcastStopSchedulers] @
              [if enumeration then CombineEnumerators else GetIncumbent])
      else None)
   \<and> Indexed_search =
       [NewIncumbent, BroadcastInitRegistry, InstallInitialBound, InitPolicy,
        BroadcastStartSchedulers, SubmitRootTask, AwaitRootPromise, BroadcastStopSchedulers,
        GetIncumbent]"
  by (simp add: Random_search_def Indexed_search_def Let_def)

theorem search_order_witness:
  "Random_search False False True False =
     Some [BroadcastInitRegistry, InitPolicy, BroadcastStartSchedulers,
           NewIncumbent, BroadcastIncumbentHandle, InstallInitialBound,
           SubmitRootTask, AwaitRootPromise, BroadcastStopSchedulers, GetIncumbent]
   \<and> Random_search False True False False =
     Some [BroadcastInitRegistry, InitPolicy, BroadcastStartSchedulers,
           SubmitRootTask, AwaitRootPromise, BroadcastStopSchedulers, CombineEnumerators]"
  using search_order [of False False True False] search_order [of False True False False]
  by simp

section \<open>Properties of the priority-ordered policy\<close>

lemma fold_setPolicy:
  "fold (setPriorityWorkqueuePolicy g) ls rt =
     rt\<lparr>local_policy := (\<lambda>l. if l \<in> set ls then Some g else local_policy rt l)\<rparr>"
proof (induction ls arbitrary: rt)
  case Nil
  then show ?case by simp
next
  case (Cons a ls)
  show ?case
    unfolding fold_simps Cons.IH
    by (auto simp: setPriorityWorkqueuePolicy_def fun_eq_iff)
qed

lemma initPolicy_eq:
  "initPolicy ops rt =
     rt\<lparr>components := (components rt)(next_gid rt \<mapsto> wq_new ops),
        next_gid := next_gid rt + 1,
        local_policy := (\<lambda>l. if l \<in> set (all_localities rt) then Some (next_gid rt)
                              else local_policy rt l)\<rparr>"
  by (simp add: initPolicy_def Let_def fold_setPolicy cong: if_cong)

lemma getWork_Some:
  assumes "components rt gwq = Some q"
  shows "getWork ops l gwq rt =
    Some (map_option (\<lambda>t. Bind t l) (fst (wq_steal ops q)),
          rt\<lparr>components := (components rt)(gwq \<mapsto> snd (wq_steal ops q))\<rparr>)"
  using assms by (simp add: getWork_def split: prod.splits option.splits)

text \<open>
  Claim C9. \<^verbatim>\<open>getWork\<close> of a \<^verbatim>\<open>PriorityOrderedPolicy\<close> whose \<^verbatim>\<open>globalWorkqueue\<close> names a
  workqueue returns nothing exactly when the \<^verbatim>\<open>steal\<close> on that workqueue yields no task,
  and otherwise that task bound to the calling locality. \<^verbatim>\<open>initPolicy\<close> creates one
  workqueue and nothing else, and installs its id in the policy of every locality; so work
  that a producer on any locality \<open>l1\<close> adds is what a consumer on any locality \<open>l2\<close>
  steals from the same, single queue.
\<close>

theorem priority_policy_single_queue:
  "(components rt gwq = Some q \<longrightarrow>
      (\<exists>r rt'. getWork ops l gwq rt = Some (r, rt')
         \<and> (r = None \<longleftrightarrow> fst (wq_steal ops q) = None)
         \<and> r = map_option (\<lambda>t. Bind t l) (fst (wq_steal ops q))))
   \<and> components (initPolicy ops rt) = (components rt)(next_gid rt \<mapsto> wq_new ops)
   \<and> (\<forall>l1 \<in> set (all_localities rt).
        local_policy (initPolicy ops rt) l1 = Some (next_gid rt))
   \<and> (\<forall>l1 \<in> set (all_localities rt). \<forall>l2 \<in> set (all_localities rt).
        \<exists>rt1. local_addwork ops l1 pr t (initPolicy ops rt) = Some rt1
          \<and> map_option fst (local_getWork ops l2 rt1)
              = Some (map_option (\<lambda>t. Bind t l2)
                       (fst (wq_steal ops (wq_addWork ops pr t (wq_new ops))))))"
proof (intro conjI impI ballI)
  assume "components rt gwq = Some q"
  from getWork_Some [OF this, of ops l]
  show "\<exists>r rt'. getWork ops l gwq rt = Some (r, rt')
         \<and> (r = None \<longleftrightarrow> fst (wq_steal ops q) = None)
         \<and> r = map_option (\<lambda>t. Bind t l) (fst (wq_steal ops q))"
    by simp
next
  show "components (initPolicy ops rt) = (components rt)(next_gid rt \<mapsto> wq_new ops)"
    by (simp add: initPolicy_eq)
next
  fix l1 assume "l1 \<in> set (all_localities rt)"
  then show "local_policy (initPolicy ops rt) l1 = Some (next_gid rt)"
    by (simp add: initPolicy_eq)
next
  fix l1 l2 assume l: "l1 \<in> set (all_localities rt)" "l2 \<in> set (all_localities rt)"
  let ?rt0 = "initPolicy ops rt"
  let ?g = "next_gid rt"
  let ?rt1 = "?rt0\<lparr>components := (components ?rt0)(?g \<mapsto> wq_addWork ops pr t (wq_new ops))\<rparr>"
  have add: "local_addwork ops l1 pr t ?rt0 = Some ?rt1"
    using l(1) by (simp add: local_addwork_def addwork_def initPolicy_eq)
  have pol: "local_policy ?rt1 l2 = Some ?g"
    using l(2) by (simp add: initPolicy_eq)
  have comp: "components ?rt1 ?g = Some (wq_addWork ops pr t (wq_new ops))"
    by simp
  have "map_option fst (local_getWork ops l2 ?rt1)
      = Some (map_option (\<lambda>t. Bind t l2) (fst (wq_steal ops (wq_addWork ops pr t (wq_new ops)))))"
    unfolding local_getWork_def pol option.case getWork_Some [OF comp] by simp
  with add show "\<exists>rt1. local_addwork ops l1 pr t ?rt0 = Some rt1
          \<and> map_option fst (local_getWork ops l2 rt1)
              = Some (map_option (\<lambda>t. Bind t l2)
                       (fst (wq_steal ops (wq_addWork ops pr t (wq_new ops)))))"
    by blast
qed

theorem priority_policy_single_queue_witness:
  "components example_runtime 7 = Some [(5, ''job'')]
   \<and> (\<exists>r rt'. getWork example_queue 1 7 example_runtime = Some (r, rt')
         \<and> (r = None \<longleftrightarrow> fst (wq_steal example_queue [(5, ''job'')]) = None)
         \<and> r = map_option (\<lambda>t. Bind t 1) (fst (wq_steal example_queue [(5, ''job'')])))
   \<and> 0 \<in> set (all_localities example_runtime) \<and> 2 \<in> set (all_localities example_runtime)
   \<and> local_policy (initPolicy example_queue example_runtime) 0 = Some (next_gid example_runtime)
   \<and> (\<exists>rt1. local_addwork example_queue 0 3 ''task'' (initPolicy example_queue example_runtime)
                = Some rt1
          \<and> map_option fst (local_getWork example_queue 2 rt1)
              = Some (map_option (\<lambda>t. Bind t 2)
                       (fst (wq_steal example_queue
                              (wq_addWork example_queue 3 ''task'' (wq_new example_queue))))))"
proof -
  have a: "components example_runtime 7 = Some [(5, ''job'')]"
    by (simp add: example_runtime_def)
  have b: "0 \<in> set (all_localities example_runtime)"
    and c: "2 \<in> set (all_localities example_runtime)"
    by (simp_all add: example_runtime_def)
  from a b c
    priority_policy_single_queue
      [of example_runtime 7 "[(5, ''job'')]" example_queue 1 3 "''task''"]
  show ?thesis by blast
qed

text \<open>The same evaluation in values: the job of priority 5 goes to locality 1.\<close>

lemma example_getWork:
  "map_option fst (getWork example_queue 1 7 example_runtime) = Some (Some (Bind ''job'' 1))"
  by (simp add: getWork_def example_runtime_def example_queue_def)

section \<open>Properties of the Random skeleton\<close>

subsection \<open>The spawn\<close>

lemma take_children_length:
  "take_children E g k = Some (cs, g') \<Longrightarrow> length cs = k"
  by (induction k arbitrary: g cs) (auto split: option.splits)

lemma after_spawn_Nil: "after_spawn cd i [] (g_iter (gen (genStack s ! i))) s = s"
  by (simp add: after_spawn_def)

lemma spawn_frame_done:
  "i < length (genStack s) \<Longrightarrow> \<not> unseen s i \<Longrightarrow> spawn_frame E cd i s = Some s"
  by (subst spawn_frame.simps) (simp add: unseen_def Let_def)

lemma spawn_frame_step:
  assumes "i < length (genStack s)" and "unseen s i"
    and "gen_next_child E (g_iter (gen (genStack s ! i))) = Some (c, g1)"
  shows "spawn_frame E cd i s = spawn_frame E cd i (after_spawn cd i [c] g1 s)"
  using assms
  by (subst spawn_frame.simps) (simp add: unseen_def Let_def createTask_def after_spawn_def)

lemma upt_single: "[n..<Suc n] = [n]"
  by simp

lemma upt_head: "[n..<Suc (n + k)] = n # [Suc n..<Suc (n + k)]"
  by (simp add: upt_conv_Cons del: upt_Suc)

lemma after_spawn_after_spawn:
  assumes "i < length (genStack s)"
  shows "after_spawn cd i cs g2 (after_spawn cd i [c] g1 s) = after_spawn cd i (c # cs) g2 s"
  using assms
  by (simp add: after_spawn_def upt_single upt_head del: upt_Suc)

lemma spawn_frame_result:
  assumes "i < length (genStack s)"
    and "take_children E (g_iter (gen (genStack s ! i)))
           (g_numChildren (gen (genStack s ! i)) - seen (genStack s ! i)) = Some (cs, g')"
  shows "spawn_frame E cd i s = Some (after_spawn cd i cs g' s)"
  using assms
proof (induction "g_numChildren (gen (genStack s ! i)) - seen (genStack s ! i)"
    arbitrary: s cs)
  case 0
  then have "\<not> unseen s i" "cs = []" "g' = g_iter (gen (genStack s ! i))"
    by (auto simp: unseen_def)
  then show ?case
    using 0 by (simp add: spawn_frame_done after_spawn_Nil)
next
  case (Suc k)
  from Suc(2) have u: "unseen s i" by (simp add: unseen_def)
  from Suc(2) Suc(4) obtain c g1 cs' where
    nx: "gen_next_child E (g_iter (gen (genStack s ! i))) = Some (c, g1)"
    and tk: "take_children E g1 k = Some (cs', g')" and cs: "cs = c # cs'"
    by (auto simp: Suc(2) [symmetric] split: option.splits)
  let ?s1 = "after_spawn cd i [c] g1 s"
  have len: "i < length (genStack ?s1)" using Suc(3) by (simp add: after_spawn_def)
  have fr: "genStack ?s1 ! i = (genStack s ! i)\<lparr>seen := seen (genStack s ! i) + 1,
      gen := (gen (genStack s ! i))\<lparr>g_iter := g1\<rparr>\<rparr>"
    using Suc(3) by (simp add: after_spawn_def)
  have k: "k = g_numChildren (gen (genStack ?s1 ! i)) - seen (genStack ?s1 ! i)"
    using Suc(2) by (simp add: fr)
  have tk1: "take_children E (g_iter (gen (genStack ?s1 ! i)))
           (g_numChildren (gen (genStack ?s1 ! i)) - seen (genStack ?s1 ! i)) = Some (cs', g')"
    using tk k by (simp add: fr)
  from Suc(1) [OF k len tk1]
  have "spawn_frame E cd i ?s1 = Some (after_spawn cd i cs' g' ?s1)" .
  then show ?case
    using spawn_frame_step [OF Suc(3) u nx, of cd]
    by (simp add: after_spawn_after_spawn [OF Suc(3)] cs)
qed

lemma spawn_scan_none:
  assumes "stackDepth s \<le> int (length (genStack s))"
    and "\<forall>j. i \<le> j \<and> int j < stackDepth s \<longrightarrow> \<not> unseen s j"
  shows "spawn_scan E cd i s = Some s"
  using assms
proof (induction "nat (stackDepth s) - i" arbitrary: i)
  case 0
  then have "\<not> int i < stackDepth s" by auto
  then show ?case by (subst spawn_scan.simps) simp
next
  case (Suc k)
  then have lt: "int i < stackDepth s" by auto
  with Suc.prems have "\<not> unseen s i" "i < length (genStack s)" by auto
  moreover have "spawn_scan E cd (i + 1) s = Some s"
    using Suc by (intro Suc(1)) auto
  ultimately show ?case
    using lt by (subst spawn_scan.simps) (simp add: unseen_def)
qed

lemma spawn_scan_first:
  assumes "i \<le> F" and "int F < stackDepth s" and "F < length (genStack s)"
    and "\<forall>j. i \<le> j \<and> j < F \<longrightarrow> \<not> unseen s j" and "unseen s F"
  shows "spawn_scan E cd i s = spawn_frame E cd F s"
  using assms
proof (induction "F - i" arbitrary: i)
  case 0
  then have "i = F" by simp
  with 0 show ?case by (subst spawn_scan.simps) (simp add: unseen_def)
next
  case (Suc k)
  then have lt: "i < F" by auto
  with Suc.prems have "\<not> unseen s i" "i < length (genStack s)" "int i < stackDepth s" by auto
  moreover have "spawn_scan E cd (i + 1) s = spawn_frame E cd F s"
    using Suc lt by (intro Suc(1)) auto
  ultimately show ?case
    by (subst spawn_scan.simps) (simp add: unseen_def)
qed

text \<open>
  Claim C5, amended. With \<^verbatim>\<open>spawnProbability\<close> zero the spawn block does nothing: no call of
  \<^verbatim>\<open>rand()\<close>, no task. Otherwise the iteration calls \<^verbatim>\<open>rand()\<close> twice, and the test fires
  exactly when \<^verbatim>\<open>(rand()<<15)+rand()\<close>, as a 32-bit unsigned value, is below
  \<open>2^30 div spawnProbability\<close>. A test that does not fire changes nothing else. A test that
  fires looks at the frames below the current one only (index less than \<open>stackDepth\<close>): if
  none of them has an unseen child nothing is spawned; otherwise, for the shallowest such
  frame \<open>F\<close>, one task is created for each child the frame has not seen, in the
  generator's order, at the child depth \<open>childDepth + F + 1\<close>, their futures are appended
  to \<open>childFutures\<close>, the frame has seen all its children afterwards, and no other frame
  is touched.
\<close>

theorem spawn_takes_first_open_frame:
  "(spawnProbability params = 0 \<longrightarrow> maybe_spawn E params cd s = Some s)
   \<and> (spawnProbability params \<noteq> 0 \<and> \<not> spawn_fires E params (rand_calls s) \<longrightarrow>
        maybe_spawn E params cd s = Some (s\<lparr>rand_calls := rand_calls s + 2\<rparr>))
   \<and> (spawnProbability params \<noteq> 0 \<and> spawn_fires E params (rand_calls s)
        \<and> stackDepth s \<le> int (length (genStack s))
        \<and> (\<forall>j. int j < stackDepth s \<longrightarrow> \<not> unseen s j) \<longrightarrow>
        maybe_spawn E params cd s = Some (s\<lparr>rand_calls := rand_calls s + 2\<rparr>))
   \<and> (spawnProbability params \<noteq> 0 \<and> spawn_fires E params (rand_calls s)
        \<and> int F < stackDepth s \<and> F < length (genStack s)
        \<and> (\<forall>j < F. \<not> unseen s j) \<and> unseen s F
        \<and> take_children E (g_iter (gen (genStack s ! F)))
             (g_numChildren (gen (genStack s ! F)) - seen (genStack s ! F)) = Some (cs, g') \<longrightarrow>
        maybe_spawn E params cd s
          = Some (after_spawn cd F cs g' (s\<lparr>rand_calls := rand_calls s + 2\<rparr>))
        \<and> seen (genStack s ! F) + length cs = g_numChildren (gen (genStack s ! F)))
   \<and> spawn_fires E params (rand_calls s)
       = ((rand E (rand_calls s) * 2 ^ 15 + rand E (rand_calls s + 1)) mod 2 ^ 32
            < 2 ^ 30 div spawnProbability params)"
proof (intro conjI impI; (elim conjE)?)
  show "spawnProbability params = 0 \<Longrightarrow> maybe_spawn E params cd s = Some s"
    by (simp add: maybe_spawn_def)
next
  show "spawnProbability params \<noteq> 0 \<Longrightarrow> \<not> spawn_fires E params (rand_calls s) \<Longrightarrow>
      maybe_spawn E params cd s = Some (s\<lparr>rand_calls := rand_calls s + 2\<rparr>)"
    by (simp add: maybe_spawn_def)
next
  let ?s = "s\<lparr>rand_calls := rand_calls s + 2\<rparr>"
  assume a: "spawnProbability params \<noteq> 0" "spawn_fires E params (rand_calls s)"
    "stackDepth s \<le> int (length (genStack s))" "\<forall>j. int j < stackDepth s \<longrightarrow> \<not> unseen s j"
  have "spawn_scan E cd 0 ?s = Some ?s"
    using a(3,4) by (intro spawn_scan_none) (auto simp: unseen_def)
  with a(1,2) show "maybe_spawn E params cd s = Some ?s"
    by (simp add: maybe_spawn_def)
next
  let ?s = "s\<lparr>rand_calls := rand_calls s + 2\<rparr>"
  assume a: "spawnProbability params \<noteq> 0" "spawn_fires E params (rand_calls s)"
    "int F < stackDepth s" "F < length (genStack s)" "\<forall>j < F. \<not> unseen s j" "unseen s F"
    "take_children E (g_iter (gen (genStack s ! F)))
       (g_numChildren (gen (genStack s ! F)) - seen (genStack s ! F)) = Some (cs, g')"
  have "spawn_scan E cd 0 ?s = spawn_frame E cd F ?s"
    using a(3-6) by (intro spawn_scan_first) (auto simp: unseen_def)
  also have "\<dots> = Some (after_spawn cd F cs g' ?s)"
    using a(4,7) by (intro spawn_frame_result) auto
  finally show "maybe_spawn E params cd s = Some (after_spawn cd F cs g' ?s)"
    using a(1,2) by (simp add: maybe_spawn_def)
  from take_children_length [OF a(7)] a(6)
  show "seen (genStack s ! F) + length cs = g_numChildren (gen (genStack s ! F))"
    by (simp add: unseen_def)
next
  show "spawn_fires E params (rand_calls s)
       = ((rand E (rand_calls s) * 2 ^ 15 + rand E (rand_calls s + 1)) mod 2 ^ 32
            < 2 ^ 30 div spawnProbability params)"
    by (simp add: spawn_fires_def spawn_draw_def)
qed

lemmas example_random_defs =
  example_RandomEnv_def example_tree_def example_start_def example_XState_def
  tree_Generator_def tree_next_def label_def spawn_fires_def spawn_draw_def unseen_def

lemma four_eq: "(4 :: nat) = Suc (Suc (Suc (Suc 0)))"
  by simp

text \<open>The example state is the state after the first iteration on the example tree.\<close>

lemma example_XState_reached:
  "Random_expand_body example_RandomEnv \<lparr>maxDepth = 0, spawnProbability = 2\<rparr> () 1
     (Random_expand_init example_RandomEnv () example_tree 1 (example_start\<lparr>next_promise := 1\<rparr>))
   = Again example_XState"
  by (simp add: Random_expand_body_def maybe_spawn_def advance_def Random_expand_init_def
      example_random_defs Let_def four_eq)

text \<open>
  Claim C5 as stated fails: the scan stops below the current frame. In the first iteration
  of a task on the example tree the only frame, the shallowest with unseen children, is the
  current one; the spawn test fires (with \<^verbatim>\<open>spawnProbability\<close> 1 every 30-bit draw does) and
  no task is created.
\<close>

theorem spawn_skips_current_frame_counterexample:
  "stackDepth (Random_expand_init example_RandomEnv () example_tree 1 example_start) = 0
   \<and> unseen (Random_expand_init example_RandomEnv () example_tree 1 example_start) 0
   \<and> spawn_fires example_RandomEnv \<lparr>maxDepth = 0, spawnProbability = 1\<rparr>
        (rand_calls (Random_expand_init example_RandomEnv () example_tree 1 example_start))
   \<and> map_option workpool
        (maybe_spawn example_RandomEnv \<lparr>maxDepth = 0, spawnProbability = 1\<rparr> 1
          (Random_expand_init example_RandomEnv () example_tree 1 example_start)) = Some []"
  by (simp add: maybe_spawn_def Random_expand_init_def spawn_scan.simps example_random_defs)

theorem spawn_takes_first_open_frame_witness:
  "spawnProbability \<lparr>maxDepth = 0, spawnProbability = 2\<rparr> \<noteq> 0
   \<and> spawn_fires example_RandomEnv \<lparr>maxDepth = 0, spawnProbability = 2\<rparr> (rand_calls example_XState)
   \<and> int 0 < stackDepth example_XState \<and> 0 < length (genStack example_XState)
   \<and> unseen example_XState 0
   \<and> take_children example_RandomEnv (g_iter (gen (genStack example_XState ! 0)))
        (g_numChildren (gen (genStack example_XState ! 0)) - seen (genStack example_XState ! 0))
      = Some ([Node 2 [], Node 3 []], [])
   \<and> maybe_spawn example_RandomEnv \<lparr>maxDepth = 0, spawnProbability = 2\<rparr> 1 example_XState
      = Some (after_spawn 1 0 [Node 2 [], Node 3 []] []
               (example_XState\<lparr>rand_calls := rand_calls example_XState + 2\<rparr>))
   \<and> seen (genStack example_XState ! 0) + length [Node 2 [], Node 3 [] :: nat tree]
      = g_numChildren (gen (genStack example_XState ! 0))
   \<and> maybe_spawn example_RandomEnv \<lparr>maxDepth = 0, spawnProbability = 0\<rparr> 1 example_XState
      = Some example_XState"
proof -
  let ?P = "\<lparr>maxDepth = 0, spawnProbability = 2\<rparr>"
  have a: "spawnProbability ?P \<noteq> 0" by simp
  have b: "spawn_fires example_RandomEnv ?P (rand_calls example_XState)"
    by (simp add: example_random_defs)
  have c: "int 0 < stackDepth example_XState" "0 < length (genStack example_XState)"
    by (simp_all add: example_random_defs)
  have d: "\<forall>j < 0. \<not> unseen example_XState j" by simp
  have e: "unseen example_XState 0" by (simp add: example_random_defs)
  have f: "take_children example_RandomEnv (g_iter (gen (genStack example_XState ! 0)))
        (g_numChildren (gen (genStack example_XState ! 0)) - seen (genStack example_XState ! 0))
      = Some ([Node 2 [], Node 3 []], [])"
    by (simp add: example_random_defs numeral_2_eq_2)
  have g: "spawnProbability \<lparr>maxDepth = 0, spawnProbability = 0\<rparr> = 0" by simp
  from a b c d e f g
    spawn_takes_first_open_frame [of ?P example_RandomEnv 1 example_XState 0
      "[Node 2 [], Node 3 []]" "[]"]
    spawn_takes_first_open_frame [of "\<lparr>maxDepth = 0, spawnProbability = 0\<rparr>"
      example_RandomEnv 1 example_XState 0 "[]" "[]"]
  show ?thesis by blast
qed

text \<open>The tasks of that evaluation: the nodes 2 and 3, at child depth 2.\<close>

lemma example_spawn_tasks:
  "map_option workpool
     (maybe_spawn example_RandomEnv \<lparr>maxDepth = 0, spawnProbability = 2\<rparr> 1 example_XState)
   = Some [(1, 2, Node 2 []), (2, 2, Node 3 [])]"
  by (simp add: maybe_spawn_def spawn_scan.simps spawn_frame.simps createTask_def Let_def
      example_random_defs)

subsection \<open>The nodes a search visits\<close>

lemma take_children_tree:
  "gen_next_child E = tree_next \<Longrightarrow> take_children E cs (length cs) = Some (cs, [])"
  by (induction cs) (simp_all add: tree_next_def)

lemma below_eq_task_nodes: "lim \<noteq> Some e \<Longrightarrow> below lim e n = task_nodes lim e n"
  by (cases n) (simp add: task_nodes_def)

lemma pool_nodes_append: "pool_nodes lim (a @ b) = pool_nodes lim a + pool_nodes lim b"
  by (simp add: pool_nodes_def)

lemma pool_nodes_zip:
  "length ps = length cs \<Longrightarrow>
   pool_nodes lim (map (\<lambda>(pid, c). (pid, d, c)) (zip ps cs))
     = sum_list (map (task_nodes lim (int d)) cs)"
  by (induction ps cs rule: list_induct2) (simp_all add: pool_nodes_def)

lemma stack_ok_rand_calls [simp]:
  "stack_ok E params cd (s\<lparr>rand_calls := k\<rparr>) = stack_ok E params cd s"
  by (simp add: stack_ok_def)

lemma todo_rand_calls [simp]: "todo lim cd (s\<lparr>rand_calls := k\<rparr>) = todo lim cd s"
  by (simp add: todo_def)

lemma unseen_rand_calls [simp]: "unseen (s\<lparr>rand_calls := k\<rparr>) j = unseen s j"
  by (simp add: unseen_def)

text \<open>Replacing the frame \<open>F\<close> changes the work left by that frame's share only.\<close>

lemma todo_update_frame:
  assumes "int F \<le> stackDepth s" and "F < length (genStack s)"
    and "genStack s' = (genStack s)[F := e']" and "stackDepth s' = stackDepth s"
  shows "todo lim cd s' + frame_todo lim cd F (genStack s ! F)
       = todo lim cd s + frame_todo lim cd F e'"
proof -
  let ?n = "nat (stackDepth s + 1)"
  let ?f = "\<lambda>i. frame_todo lim cd i (genStack s ! i)"
  let ?f' = "\<lambda>i. frame_todo lim cd i (genStack s' ! i)"
  have F: "F \<in> {..<?n}" using assms(1) by auto
  have rest: "sum ?f' ({..<?n} - {F}) = sum ?f ({..<?n} - {F})"
    by (rule sum.cong) (auto simp: assms(3))
  have "sum ?f' {..<?n} = ?f' F + sum ?f' ({..<?n} - {F})"
    using F by (intro sum.remove) auto
  moreover have "sum ?f {..<?n} = ?f F + sum ?f ({..<?n} - {F})"
    using F by (intro sum.remove) auto
  moreover have "?f' F = frame_todo lim cd F e'"
    using assms(2,3) by simp
  ultimately show ?thesis
    using rest by (simp add: todo_def assms(4))
qed

lemma stack_ok_frame:
  assumes "stack_ok E params cd s" and "int i \<le> stackDepth s"
  shows "seen (genStack s ! i) + length (g_iter (gen (genStack s ! i)))
           = g_numChildren (gen (genStack s ! i))"
    and "\<And>n. n \<in> set (g_iter (gen (genStack s ! i))) \<Longrightarrow> i + 1 + height n < maxStackDepth E"
  using assms unfolding stack_ok_def by blast+

lemma stack_ok_limit:
  assumes "stack_ok E params cd s" and "int i < stackDepth s"
  shows "depth_limit E params \<noteq> Some (int cd + int i + 1)"
  using assms unfolding stack_ok_def by blast

lemma stack_ok_basic:
  assumes "stack_ok E params cd s"
  shows "length (genStack s) = maxStackDepth E" and "- 1 \<le> stackDepth s"
    and "stackDepth s < int (maxStackDepth E)" and "depth s = int cd + stackDepth s"
  using assms unfolding stack_ok_def by blast+

lemma stack_okI:
  assumes "length (genStack s) = maxStackDepth E" and "- 1 \<le> stackDepth s"
    and "stackDepth s < int (maxStackDepth E)" and "depth s = int cd + stackDepth s"
    and "\<And>i. int i \<le> stackDepth s \<Longrightarrow>
      seen (genStack s ! i) + length (g_iter (gen (genStack s ! i)))
           = g_numChildren (gen (genStack s ! i))"
    and "\<And>i n. int i \<le> stackDepth s \<Longrightarrow> n \<in> set (g_iter (gen (genStack s ! i)))
      \<Longrightarrow> i + 1 + height n < maxStackDepth E"
    and "\<And>i. int i < stackDepth s \<Longrightarrow> depth_limit E params \<noteq> Some (int cd + int i + 1)"
  shows "stack_ok E params cd s"
  unfolding stack_ok_def using assms by blast

lemma spawn_phase:
  assumes ok: "stack_ok E params cd s" and tree: "gen_next_child E = tree_next"
  shows "\<exists>s1 new. maybe_spawn E params cd s = Some s1 \<and> stack_ok E params cd s1
    \<and> stackDepth s1 = stackDepth s \<and> visited s1 = visited s
    \<and> workpool s1 = workpool s @ new
    \<and> pool_nodes (depth_limit E params) new + todo (depth_limit E params) cd s1
        = todo (depth_limit E params) cd s
    \<and> (\<forall>(pid, d, n) \<in> set new. height n < maxStackDepth E)"
proof -
  let ?lim = "depth_limit E params"
  let ?sr = "s\<lparr>rand_calls := rand_calls s + 2\<rparr>"
  have len: "length (genStack s) = maxStackDepth E" using ok by (rule stack_ok_basic)
  have sd: "stackDepth s < int (maxStackDepth E)" using ok by (rule stack_ok_basic)
  have trivial: "\<exists>s1 new. s0 = s1 \<and> stack_ok E params cd s1
    \<and> stackDepth s1 = stackDepth s \<and> visited s1 = visited s
    \<and> workpool s1 = workpool s @ new
    \<and> pool_nodes ?lim new + todo ?lim cd s1 = todo ?lim cd s
    \<and> (\<forall>(pid, d, n) \<in> set new. height n < maxStackDepth E)"
    if "s0 = s \<or> s0 = ?sr" for s0
    using that ok by (intro exI [of _ s0] exI [of _ "[]"]) (auto simp: pool_nodes_def)
  show ?thesis
  proof (cases "spawnProbability params \<noteq> 0 \<and> spawn_fires E params (rand_calls s)
      \<and> (\<exists>j. int j < stackDepth s \<and> unseen s j)")
    case False
    then consider "spawnProbability params = 0"
      | "spawnProbability params \<noteq> 0" "\<not> spawn_fires E params (rand_calls s)"
      | "spawnProbability params \<noteq> 0" "spawn_fires E params (rand_calls s)"
        "\<forall>j. int j < stackDepth s \<longrightarrow> \<not> unseen s j"
      by blast
    then show ?thesis
    proof cases
      case 1
      then have "maybe_spawn E params cd s = Some s" by (simp add: maybe_spawn_def)
      with trivial [of s] show ?thesis by simp
    next
      case 2
      then have "maybe_spawn E params cd s = Some ?sr" by (simp add: maybe_spawn_def)
      with trivial [of ?sr] show ?thesis by simp
    next
      case 3
      have "spawn_scan E cd 0 ?sr = Some ?sr"
        using 3(3) sd len by (intro spawn_scan_none) auto
      with 3 have "maybe_spawn E params cd s = Some ?sr" by (simp add: maybe_spawn_def)
      with trivial [of ?sr] show ?thesis by simp
    qed
  next
    case True
    then have sp: "spawnProbability params \<noteq> 0" "spawn_fires E params (rand_calls s)"
      and ex: "\<exists>j. int j < stackDepth s \<and> unseen s j" by auto
    define F where "F = (LEAST j. int j < stackDepth s \<and> unseen s j)"
    have F: "int F < stackDepth s" "unseen s F"
      using LeastI_ex [OF ex] by (simp_all add: F_def)
    have least: "\<forall>j < F. \<not> unseen s j"
    proof (intro allI impI)
      fix j assume j: "j < F"
      then have "\<not> (int j < stackDepth s \<and> unseen s j)"
        unfolding F_def by (rule not_less_Least)
      moreover have "int j < stackDepth s" using j F(1) by simp
      ultimately show "\<not> unseen s j" by simp
    qed
    have Flen: "F < length (genStack s)" using F(1) sd len by auto
    let ?e = "genStack s ! F"
    let ?cs = "g_iter (gen ?e)"
    have Fle: "int F \<le> stackDepth s" using F(1) by simp
    have fr: "seen ?e + length ?cs = g_numChildren (gen ?e)"
      "\<forall>n \<in> set ?cs. F + 1 + height n < maxStackDepth E"
      using stack_ok_frame [OF ok Fle] by blast+
    have nolim: "?lim \<noteq> Some (int cd + int F + 1)"
      using ok F(1) by (rule stack_ok_limit)
    have tk: "take_children E (g_iter (gen (genStack ?sr ! F)))
        (g_numChildren (gen (genStack ?sr ! F)) - seen (genStack ?sr ! F)) = Some (?cs, [])"
      using take_children_tree [OF tree, of ?cs] fr(1) by (simp add: fr(1) [symmetric])
    define s1 where "s1 = after_spawn cd F ?cs [] ?sr"
    let ?new = "map (\<lambda>(pid, c). (pid, cd + F + 1, c))
        (zip [next_promise s ..< next_promise s + length ?cs] ?cs)"
    have "spawn_scan E cd 0 ?sr = spawn_frame E cd F ?sr"
      using F least Flen by (intro spawn_scan_first) auto
    also have "\<dots> = Some s1"
      unfolding s1_def using Flen tk by (intro spawn_frame_result) auto
    finally have run: "maybe_spawn E params cd s = Some s1"
      using sp by (simp add: maybe_spawn_def)
    have gs: "genStack s1 = (genStack s)[F := ?e\<lparr>seen := seen ?e + length ?cs,
        gen := (gen ?e)\<lparr>g_iter := []\<rparr>\<rparr>]"
      by (simp add: s1_def after_spawn_def)
    have sd1: "stackDepth s1 = stackDepth s" "depth s1 = depth s" "visited s1 = visited s"
      by (simp_all add: s1_def after_spawn_def)
    have wp: "workpool s1 = workpool s @ ?new"
      by (simp add: s1_def after_spawn_def)
    have ok1: "stack_ok E params cd s1"
    proof (rule stack_okI)
      show "length (genStack s1) = maxStackDepth E" by (simp add: gs len)
      show "- 1 \<le> stackDepth s1" "stackDepth s1 < int (maxStackDepth E)"
        "depth s1 = int cd + stackDepth s1"
        using stack_ok_basic [OF ok] by (simp_all add: sd1)
    next
      fix i assume i: "int i \<le> stackDepth s1"
      then have i': "int i \<le> stackDepth s" by (simp add: sd1)
      show "seen (genStack s1 ! i) + length (g_iter (gen (genStack s1 ! i)))
           = g_numChildren (gen (genStack s1 ! i))"
        using stack_ok_frame(1) [OF ok i'] fr(1) Flen
        by (cases "i = F") (simp_all add: gs)
      fix n assume "n \<in> set (g_iter (gen (genStack s1 ! i)))"
      then show "i + 1 + height n < maxStackDepth E"
        using stack_ok_frame(2) [OF ok i'] Flen
        by (cases "i = F") (simp_all add: gs)
    next
      fix i assume "int i < stackDepth s1"
      then show "depth_limit E params \<noteq> Some (int cd + int i + 1)"
        using stack_ok_limit [OF ok] by (simp add: sd1)
    qed
    have "todo ?lim cd s1 + frame_todo ?lim cd F ?e
        = todo ?lim cd s + frame_todo ?lim cd F (?e\<lparr>seen := seen ?e + length ?cs,
        gen := (gen ?e)\<lparr>g_iter := []\<rparr>\<rparr>)"
      using Fle Flen gs sd1(1) by (rule todo_update_frame)
    then have td: "todo ?lim cd s1 + frame_todo ?lim cd F ?e = todo ?lim cd s"
      by (simp add: frame_todo_def)
    have "pool_nodes ?lim ?new = sum_list (map (task_nodes ?lim (int (cd + F + 1))) ?cs)"
      by (rule pool_nodes_zip) simp
    also have "\<dots> = frame_todo ?lim cd F ?e"
    proof -
      have fe: "below ?lim (int cd + int F + 1) = task_nodes ?lim (int cd + int F + 1)"
        by (rule ext) (rule below_eq_task_nodes [OF nolim])
      have e: "int (cd + F + 1) = int cd + int F + 1" by simp
      show ?thesis
        unfolding frame_todo_def e fe by (rule refl)
    qed
    finally have pn: "pool_nodes ?lim ?new + todo ?lim cd s1 = todo ?lim cd s"
      using td by (simp add: add.commute)
    have hs: "\<forall>(pid, d, n) \<in> set ?new. height n < maxStackDepth E"
      using fr(2) by (auto dest!: set_zip_rightD)
    from run ok1 sd1 wp pn hs show ?thesis by blast
  qed
qed


lemma height_child: "n \<in> set cs \<Longrightarrow> height n < height (Node a cs)"
proof -
  assume n: "n \<in> set cs"
  then have "height n \<le> Max (height ` set cs)"
    by (intro Max_ge) auto
  moreover have "cs \<noteq> []" using n by auto
  ultimately show ?thesis by simp
qed

lemma todo_split:
  assumes "0 \<le> stackDepth s"
  shows "todo lim cd s =
    (\<Sum>i < nat (stackDepth s). frame_todo lim cd i (genStack s ! i))
      + frame_todo lim cd (nat (stackDepth s)) (genStack s ! nat (stackDepth s))"
proof -
  have "nat (stackDepth s + 1) = Suc (nat (stackDepth s))" using assms by simp
  then show ?thesis by (simp add: todo_def)
qed

lemma todo_low:
  assumes "stackDepth s' = stackDepth s - 1"
  shows "todo lim cd s' = (\<Sum>i < nat (stackDepth s). frame_todo lim cd i (genStack s' ! i))"
  by (simp add: todo_def assms)

lemma low_cong:
  assumes "\<And>i. i < k \<Longrightarrow> gs' ! i = gs ! i"
  shows "(\<Sum>i < k. frame_todo lim cd i (gs' ! i)) = (\<Sum>i < k. frame_todo lim cd i (gs ! i))"
  by (rule sum.cong) (simp_all add: assms)

lemma depth_limit_Some:
  "depth_limit E params = Some x \<longleftrightarrow> isDepthBounded E \<and> x = int (maxDepth params)"
  by (auto simp: depth_limit_def)

lemma move_phase:
  assumes ok: "stack_ok E params cd s" and ge: "0 \<le> stackDepth s"
    and gen: "Generator E = tree_Generator" and nxt: "gen_next_child E = tree_next"
    and pn: "\<And>n a r. fst (processNode E params sp n a r) = Continue"
  shows "\<exists>s' more. advance E params sp s = Again s' \<and> stack_ok E params cd s'
    \<and> visited s' = visited s @ more \<and> workpool s' = workpool s
    \<and> mset more + todo (depth_limit E params) cd s' = todo (depth_limit E params) cd s
    \<and> 2 * size (todo (depth_limit E params) cd s') + nat (stackDepth s' + 1)
        < 2 * size (todo (depth_limit E params) cd s) + nat (stackDepth s + 1)"
proof -
  let ?lim = "depth_limit E params"
  define sd where "sd = nat (stackDepth s)"
  define e where "e = genStack s ! sd"
  have sdi: "stackDepth s = int sd" using ge by (simp add: sd_def)
  have len: "length (genStack s) = maxStackDepth E" using ok by (rule stack_ok_basic)
  have sdlen: "sd < length (genStack s)"
    using stack_ok_basic(3) [OF ok] len sdi by simp
  have dep: "depth s = int cd + int sd" using stack_ok_basic(4) [OF ok] sdi by simp
  have fr: "seen e + length (g_iter (gen e)) = g_numChildren (gen e)"
    using stack_ok_frame(1) [OF ok, of sd] sdi by (simp add: e_def)
  have hts: "\<And>n. n \<in> set (g_iter (gen e)) \<Longrightarrow> sd + 1 + height n < maxStackDepth E"
    using stack_ok_frame(2) [OF ok, of sd] sdi by (simp add: e_def)
  have split: "todo ?lim cd s =
      (\<Sum>i < sd. frame_todo ?lim cd i (genStack s ! i)) + frame_todo ?lim cd sd e"
    using todo_split [OF ge] by (simp add: sd_def e_def)
  show ?thesis
  proof (cases "seen e < g_numChildren (gen e)")
    case False
    with fr have "length (g_iter (gen e)) = 0" by arith
    then have empty: "g_iter (gen e) = []" by simp
    define s' where "s' = s\<lparr>stackDepth := stackDepth s - 1, depth := depth s - 1\<rparr>"
    have run: "advance E params sp s = Again s'"
      using False sdlen by (simp add: advance_def Let_def sd_def [symmetric] e_def [symmetric] s'_def)
    have f': "genStack s' = genStack s" "stackDepth s' = int sd - 1" "depth s' = depth s - 1"
      "visited s' = visited s" "workpool s' = workpool s"
      by (simp_all add: s'_def sdi)
    have ok': "stack_ok E params cd s'"
    proof (rule stack_okI)
      show "length (genStack s') = maxStackDepth E" by (simp add: f' len)
      show "- 1 \<le> stackDepth s'" "stackDepth s' < int (maxStackDepth E)"
        "depth s' = int cd + stackDepth s'"
        using stack_ok_basic [OF ok] sdi dep by (simp_all add: f')
    next
      fix i assume i: "int i \<le> stackDepth s'"
      then have i': "int i \<le> stackDepth s" by (simp add: f' sdi)
      show "seen (genStack s' ! i) + length (g_iter (gen (genStack s' ! i)))
           = g_numChildren (gen (genStack s' ! i))"
        using stack_ok_frame(1) [OF ok i'] by (simp add: f')
      fix n assume "n \<in> set (g_iter (gen (genStack s' ! i)))"
      then show "i + 1 + height n < maxStackDepth E"
        using stack_ok_frame(2) [OF ok i'] by (simp add: f')
    next
      fix i assume "int i < stackDepth s'"
      then show "depth_limit E params \<noteq> Some (int cd + int i + 1)"
        using stack_ok_limit [OF ok, of i] by (simp add: f' sdi)
    qed
    have td: "todo ?lim cd s' = todo ?lim cd s"
      unfolding split using todo_low [of s' s ?lim cd]
      by (simp add: f' sdi empty frame_todo_def sd_def [symmetric])
    have "advance E params sp s = Again s' \<and> stack_ok E params cd s'
      \<and> visited s' = visited s @ [] \<and> workpool s' = workpool s
      \<and> mset [] + todo ?lim cd s' = todo ?lim cd s
      \<and> 2 * size (todo ?lim cd s') + nat (stackDepth s' + 1)
          < 2 * size (todo ?lim cd s) + nat (stackDepth s + 1)"
      using run ok' td by (simp add: f' sdi)
    then show ?thesis by blast
  next
    case True
    with fr obtain c rest where rem: "g_iter (gen e) = c # rest"
      by (cases "g_iter (gen e)") auto
    obtain a cs where c: "c = Node a cs" by (cases c)
    have hc: "sd + 1 + height c < maxStackDepth E" using hts [of c] by (simp add: rem)
    then have sd1: "sd + 1 < length (genStack s)" by (simp add: len)
    obtain acc' reg' where p: "processNode E params sp c (acc s) (registry s) = (Continue, acc', reg')"
      using pn [of c "acc s" "registry s"] by (cases "processNode E params sp c (acc s) (registry s)") auto
    define e' where "e' = e\<lparr>gen := (gen e)\<lparr>g_iter := rest\<rparr>, seen := seen e + 1\<rparr>"
    define gs2 where "gs2 = ((genStack s)[sd + 1 := (genStack s ! (sd + 1))\<lparr>node := c\<rparr>])[sd := e']"
    define s2 where "s2 = s\<lparr>genStack := gs2, acc := acc', registry := reg',
      visited := visited s @ [c]\<rparr>"
    have gs2_len: "length gs2 = length (genStack s)" by (simp add: gs2_def)
    have gs2_sd: "gs2 ! sd = e'" using sdlen by (simp add: gs2_def)
    have gs2_low: "\<And>i. i < sd \<Longrightarrow> gs2 ! i = genStack s ! i" by (simp add: gs2_def)
    have fr': "seen e' + length (g_iter (gen e')) = g_numChildren (gen e')"
      using fr by (simp add: e'_def rem)
    have hts': "\<And>n. n \<in> set (g_iter (gen e')) \<Longrightarrow> sd + 1 + height n < maxStackDepth E"
      using hts by (simp add: e'_def rem)
    have ft: "frame_todo ?lim cd sd e = below ?lim (int cd + int sd + 1) c + frame_todo ?lim cd sd e'"
      by (simp add: frame_todo_def rem e'_def)
    show ?thesis
    proof (cases "isDepthBounded E \<and> depth s + 1 = int (maxDepth params)")
      case True
      then have lim: "?lim = Some (int cd + int sd + 1)"
        by (simp add: depth_limit_def dep)
      have run: "advance E params sp s = Again s2"
        using \<open>seen e < g_numChildren (gen e)\<close> sdlen sd1 True
        by (simp add: advance_def Let_def sd_def [symmetric] e_def [symmetric] rem nxt tree_next_def
            p s2_def gs2_def e'_def)
      have f2: "genStack s2 = gs2" "stackDepth s2 = int sd" "depth s2 = depth s"
        "visited s2 = visited s @ [c]" "workpool s2 = workpool s"
        by (simp_all add: s2_def sdi)
      have ok2: "stack_ok E params cd s2"
      proof (rule stack_okI)
        show "length (genStack s2) = maxStackDepth E" by (simp add: f2 gs2_len len)
        show "- 1 \<le> stackDepth s2" "stackDepth s2 < int (maxStackDepth E)"
          "depth s2 = int cd + stackDepth s2"
          using stack_ok_basic [OF ok] sdi dep by (simp_all add: f2)
      next
        fix i assume i: "int i \<le> stackDepth s2"
        then have i': "int i \<le> stackDepth s" by (simp add: f2 sdi)
        show "seen (genStack s2 ! i) + length (g_iter (gen (genStack s2 ! i)))
             = g_numChildren (gen (genStack s2 ! i))"
          using stack_ok_frame(1) [OF ok i'] fr' i
          by (cases "i = sd") (simp_all add: f2 gs2_sd gs2_low)
        fix n assume "n \<in> set (g_iter (gen (genStack s2 ! i)))"
        then show "i + 1 + height n < maxStackDepth E"
          using stack_ok_frame(2) [OF ok i'] hts' i
          by (cases "i = sd") (simp_all add: f2 gs2_sd gs2_low)
      next
        fix i assume "int i < stackDepth s2"
        then show "depth_limit E params \<noteq> Some (int cd + int i + 1)"
          using stack_ok_limit [OF ok, of i] by (simp add: f2 sdi)
      qed
      have split2: "todo ?lim cd s2 =
          (\<Sum>i < sd. frame_todo ?lim cd i (genStack s ! i)) + frame_todo ?lim cd sd e'"
        using todo_split [of s2 ?lim cd] low_cong [of sd gs2 "genStack s" ?lim cd] gs2_low
        by (simp add: f2 gs2_sd)
      have bl: "below ?lim (int cd + int sd + 1) c = {#c#}"
        by (simp add: c lim)
      have td: "mset [c] + todo ?lim cd s2 = todo ?lim cd s"
        unfolding split split2 ft bl by simp
      have "advance E params sp s = Again s2 \<and> stack_ok E params cd s2
        \<and> visited s2 = visited s @ [c] \<and> workpool s2 = workpool s
        \<and> mset [c] + todo ?lim cd s2 = todo ?lim cd s
        \<and> 2 * size (todo ?lim cd s2) + nat (stackDepth s2 + 1)
            < 2 * size (todo ?lim cd s) + nat (stackDepth s + 1)"
        using run ok2 td by (simp add: f2 sdi td [symmetric])
      then show ?thesis by blast
    next
      case False
      then have nolim: "?lim \<noteq> Some (int cd + int sd + 1)"
        by (auto simp: depth_limit_def dep)
      define e1 where "e1 = (gs2 ! (sd + 1))\<lparr>seen := 0, gen := tree_Generator sp c\<rparr>"
      define s3 where "s3 = s2\<lparr>stackDepth := int sd + 1, depth := depth s + 1,
        genStack := gs2[sd + 1 := e1]\<rparr>"
      have run: "advance E params sp s = Again s3"
        using \<open>seen e < g_numChildren (gen e)\<close> sdlen sd1 False
        by (auto simp add: advance_def Let_def sd_def [symmetric] e_def [symmetric] rem nxt
            tree_next_def p s3_def s2_def gs2_def e'_def e1_def gen sdi)
      have f3: "genStack s3 = gs2[sd + 1 := e1]" "stackDepth s3 = int sd + 1"
        "depth s3 = depth s + 1" "visited s3 = visited s @ [c]" "workpool s3 = workpool s"
        by (simp_all add: s3_def s2_def)
      have g1: "g_iter (gen e1) = cs" "g_numChildren (gen e1) = length cs" "seen e1 = 0"
        by (simp_all add: e1_def tree_Generator_def c)
      have gs3_top: "(gs2[Suc sd := e1]) ! Suc sd = e1"
        using sd1 by (simp add: gs2_len)
      have gs3_sd: "(gs2[Suc sd := e1]) ! sd = e'" by (simp add: gs2_sd)
      have gs3_low: "\<And>i. i < sd \<Longrightarrow> (gs2[Suc sd := e1]) ! i = genStack s ! i"
        by (simp add: gs2_low)
      have ok3: "stack_ok E params cd s3"
      proof (rule stack_okI)
        show "length (genStack s3) = maxStackDepth E" by (simp add: f3 gs2_len len)
        show "- 1 \<le> stackDepth s3" "stackDepth s3 < int (maxStackDepth E)"
          "depth s3 = int cd + stackDepth s3"
          using sd1 len dep by (simp_all add: f3)
      next
        fix i assume i: "int i \<le> stackDepth s3"
        then have "i \<le> sd + 1" by (simp add: f3)
        then consider "i = sd + 1" | "i = sd" | "i < sd" by linarith
        then show "seen (genStack s3 ! i) + length (g_iter (gen (genStack s3 ! i)))
             = g_numChildren (gen (genStack s3 ! i))"
        proof cases
          case 1 then show ?thesis by (simp add: f3 gs3_top g1)
        next
          case 2 then show ?thesis using fr' by (simp add: f3 gs3_sd)
        next
          case 3 then show ?thesis
            using stack_ok_frame(1) [OF ok, of i] by (simp add: f3 gs3_low gs2_low sdi)
        qed
        fix n assume n: "n \<in> set (g_iter (gen (genStack s3 ! i)))"
        from \<open>i \<le> sd + 1\<close> consider "i = sd + 1" | "i = sd" | "i < sd"
          by linarith
        then show "i + 1 + height n < maxStackDepth E"
        proof cases
          case 1
          with n have "n \<in> set cs" by (simp add: f3 gs3_top g1)
          then have "height n < height c" unfolding c by (rule height_child)
          with hc 1 show ?thesis by simp
        next
          case 2 with n show ?thesis using hts' by (simp add: f3 gs3_sd)
        next
          case 3 with n show ?thesis
            using stack_ok_frame(2) [OF ok, of i n] by (simp add: f3 gs3_low gs2_low sdi)
        qed
      next
        fix i assume "int i < stackDepth s3"
        then have "i \<le> sd" by (simp add: f3)
        then consider "i = sd" | "i < sd" by linarith
        then show "depth_limit E params \<noteq> Some (int cd + int i + 1)"
        proof cases
          case 1 then show ?thesis using nolim by simp
        next
          case 2 then show ?thesis using stack_ok_limit [OF ok, of i] by (simp add: sdi)
        qed
      qed
      have "todo ?lim cd s3 =
          (\<Sum>i < sd + 1. frame_todo ?lim cd i (genStack s3 ! i))
            + frame_todo ?lim cd (sd + 1) (genStack s3 ! (sd + 1))"
        using todo_split [of s3 ?lim cd] by (simp add: f3 nat_add_distrib)
      also have "(\<Sum>i < sd + 1. frame_todo ?lim cd i (genStack s3 ! i)) =
          (\<Sum>i < sd. frame_todo ?lim cd i (genStack s ! i)) + frame_todo ?lim cd sd e'"
        using low_cong [of sd "gs2[Suc sd := e1]" "genStack s" ?lim cd] gs3_low
        by (simp add: f3 gs3_sd gs2_sd gs2_low)
      also have "frame_todo ?lim cd (sd + 1) (genStack s3 ! (sd + 1))
          = sum_list (map (below ?lim (int cd + int sd + 1 + 1)) cs)"
        by (simp add: f3 gs3_top frame_todo_def g1 add.commute add.left_commute)
      finally have split3: "todo ?lim cd s3 =
          (\<Sum>i < sd. frame_todo ?lim cd i (genStack s ! i)) + frame_todo ?lim cd sd e'
            + sum_list (map (below ?lim (int cd + int sd + 1 + 1)) cs)" .
      have bl: "below ?lim (int cd + int sd + 1) c
          = {#c#} + sum_list (map (below ?lim (int cd + int sd + 1 + 1)) cs)"
        using nolim by (simp add: c)
      have td: "mset [c] + todo ?lim cd s3 = todo ?lim cd s"
        unfolding split split3 ft bl by simp
      have "advance E params sp s = Again s3 \<and> stack_ok E params cd s3
        \<and> visited s3 = visited s @ [c] \<and> workpool s3 = workpool s
        \<and> mset [c] + todo ?lim cd s3 = todo ?lim cd s
        \<and> 2 * size (todo ?lim cd s3) + nat (stackDepth s3 + 1)
            < 2 * size (todo ?lim cd s) + nat (stackDepth s + 1)"
        using run ok3 td by (simp add: f3 sdi td [symmetric])
      then show ?thesis by blast
    qed
  qed
qed

lemma todo_finished:
  assumes "stack_ok E params cd s" and "\<not> 0 \<le> stackDepth s"
  shows "todo lim cd s = {#}"
proof -
  have "stackDepth s = - 1" using stack_ok_basic(2) [OF assms(1)] assms(2) by simp
  then show ?thesis by (simp add: todo_def)
qed

lemma loop_visits:
  assumes gen: "Generator E = tree_Generator" and nxt: "gen_next_child E = tree_next"
    and nd: "\<not> isDecision E"
    and pn: "\<And>n a r. fst (processNode E params sp n a r) = Continue"
  shows "stack_ok E params cd s \<Longrightarrow>
    2 * size (todo (depth_limit E params) cd s) + nat (stackDepth s + 1) \<le> fuel \<Longrightarrow>
    \<exists>s' more new. Random_expand_loop fuel E params sp cd s = Finished s'
      \<and> visited s' = visited s @ more \<and> workpool s' = workpool s @ new
      \<and> mset more + pool_nodes (depth_limit E params) new = todo (depth_limit E params) cd s
      \<and> (\<forall>(pid, d, n) \<in> set new. height n < maxStackDepth E)"
proof (induction fuel arbitrary: s)
  case 0
  then have neg: "\<not> 0 \<le> stackDepth s" by simp
  have "Random_expand_loop 0 E params sp cd s = Finished s \<and> visited s = visited s @ []
      \<and> workpool s = workpool s @ []
      \<and> mset [] + pool_nodes (depth_limit E params) [] = todo (depth_limit E params) cd s
      \<and> (\<forall>(pid, d, n) \<in> set []. height n < maxStackDepth E)"
    using neg todo_finished [OF "0.prems"(1) neg] by (simp add: pool_nodes_def)
  then show ?case
    by (intro exI [of _ s] exI [of _ "[]"])
next
  case (Suc fuel)
  let ?lim = "depth_limit E params"
  show ?case
  proof (cases "0 \<le> stackDepth s")
    case False
    have "Random_expand_loop (Suc fuel) E params sp cd s = Finished s \<and> visited s = visited s @ []
        \<and> workpool s = workpool s @ []
        \<and> mset [] + pool_nodes ?lim [] = todo ?lim cd s
        \<and> (\<forall>(pid, d, n) \<in> set []. height n < maxStackDepth E)"
      using False todo_finished [OF Suc.prems(1) False] by (simp add: pool_nodes_def)
    then show ?thesis
      by (intro exI [of _ s] exI [of _ "[]"])
  next
    case True
    from spawn_phase [OF Suc.prems(1) nxt] obtain s1 new1 where
      sp1: "maybe_spawn E params cd s = Some s1" and ok1: "stack_ok E params cd s1"
      and sd1: "stackDepth s1 = stackDepth s" and v1: "visited s1 = visited s"
      and w1: "workpool s1 = workpool s @ new1"
      and t1: "pool_nodes ?lim new1 + todo ?lim cd s1 = todo ?lim cd s"
      and h1: "\<forall>(pid, d, n) \<in> set new1. height n < maxStackDepth E"
      by blast
    have ge1: "0 \<le> stackDepth s1" using True sd1 by simp
    from move_phase [OF ok1 ge1 gen nxt pn] obtain s2 more2 where
      adv: "advance E params sp s1 = Again s2" and ok2: "stack_ok E params cd s2"
      and v2: "visited s2 = visited s1 @ more2" and w2: "workpool s2 = workpool s1"
      and t2: "mset more2 + todo ?lim cd s2 = todo ?lim cd s1"
      and m2: "2 * size (todo ?lim cd s2) + nat (stackDepth s2 + 1)
          < 2 * size (todo ?lim cd s1) + nat (stackDepth s1 + 1)"
      by blast
    have "size (pool_nodes ?lim new1) + size (todo ?lim cd s1) = size (todo ?lim cd s)"
      unfolding size_union [symmetric] t1 by (rule refl)
    then have "size (todo ?lim cd s1) \<le> size (todo ?lim cd s)" by arith
    with m2 sd1 Suc.prems(2)
    have fuel: "2 * size (todo ?lim cd s2) + nat (stackDepth s2 + 1) \<le> fuel" by simp
    from Suc.IH [OF ok2 fuel] obtain s' more new where
      run: "Random_expand_loop fuel E params sp cd s2 = Finished s'"
      and v: "visited s' = visited s2 @ more" and w: "workpool s' = workpool s2 @ new"
      and t: "mset more + pool_nodes ?lim new = todo ?lim cd s2"
      and h: "\<forall>(pid, d, n) \<in> set new. height n < maxStackDepth E"
      by blast
    have body: "Random_expand_body E params sp cd s = Again s2"
      using nd sp1 adv by (simp add: Random_expand_body_def)
    have "todo ?lim cd s = pool_nodes ?lim new1 + todo ?lim cd s1" by (rule t1 [symmetric])
    also have "todo ?lim cd s1 = mset more2 + todo ?lim cd s2" by (rule t2 [symmetric])
    also have "todo ?lim cd s2 = mset more + pool_nodes ?lim new" by (rule t [symmetric])
    finally have "mset (more2 @ more) + pool_nodes ?lim (new1 @ new) = todo ?lim cd s"
      by (simp add: pool_nodes_append)
    moreover have "Random_expand_loop (Suc fuel) E params sp cd s = Finished s'"
      using True body run by simp
    moreover have "visited s' = visited s @ (more2 @ more)" using v v2 v1 by simp
    moreover have "workpool s' = workpool s @ (new1 @ new)" using w w2 w1 by simp
    moreover have "\<forall>(pid, d, n) \<in> set (new1 @ new). height n < maxStackDepth E"
      using h h1 by auto
    ultimately show ?thesis
      by (intro exI [of _ s'] exI [of _ "more2 @ more"] exI [of _ "new1 @ new"] conjI)
  qed
qed


lemma init_ok:
  assumes gen: "Generator E = tree_Generator" and h: "height root < maxStackDepth E"
  shows "stack_ok E params cd (Random_expand_init E sp root cd s)"
    and "{#root#} + todo lim cd (Random_expand_init E sp root cd s) = task_nodes lim (int cd) root"
proof -
  let ?s0 = "Random_expand_init E sp root cd s"
  obtain a cs where root: "root = Node a cs" by (cases root)
  have pos: "0 < maxStackDepth E" using h by simp
  have f0: "genStack ?s0 ! 0 = \<lparr>seen = 0, node = root, gen = tree_Generator sp root\<rparr>"
    "length (genStack ?s0) = maxStackDepth E" "stackDepth ?s0 = 0" "depth ?s0 = int cd"
    using pos by (simp_all add: Random_expand_init_def gen)
  have g0: "g_iter (gen (genStack ?s0 ! 0)) = cs" "g_numChildren (gen (genStack ?s0 ! 0)) = length cs"
    "seen (genStack ?s0 ! 0) = 0"
    using f0(1) unfolding root by (simp_all add: tree_Generator_def)
  show "stack_ok E params cd ?s0"
  proof (rule stack_okI)
    show "length (genStack ?s0) = maxStackDepth E" by (rule f0)
    show "- 1 \<le> stackDepth ?s0" "stackDepth ?s0 < int (maxStackDepth E)"
      "depth ?s0 = int cd + stackDepth ?s0"
      using pos by (simp_all add: f0)
  next
    fix i assume "int i \<le> stackDepth ?s0"
    then have i: "i = 0" by (simp add: f0)
    show "seen (genStack ?s0 ! i) + length (g_iter (gen (genStack ?s0 ! i)))
        = g_numChildren (gen (genStack ?s0 ! i))"
      unfolding i by (simp add: g0)
    fix n assume "n \<in> set (g_iter (gen (genStack ?s0 ! i)))"
    then have "n \<in> set cs" unfolding i by (simp add: g0)
    then have "height n < height root" unfolding root by (rule height_child)
    with h show "i + 1 + height n < maxStackDepth E" unfolding i by simp
  next
    fix i assume "int i < stackDepth ?s0"
    then show "depth_limit E params \<noteq> Some (int cd + int i + 1)" by (simp add: f0)
  qed
  have "todo lim cd ?s0 = frame_todo lim cd 0 (genStack ?s0 ! 0)"
    by (simp add: todo_def f0(3))
  also have "\<dots> = sum_list (map (below lim (int cd + 1)) cs)"
    by (simp add: frame_todo_def g0)
  finally show "{#root#} + todo lim cd ?s0 = task_nodes lim (int cd) root"
    by (simp add: task_nodes_def root)
qed

lemma init_fields:
  "visited (Random_expand_init E sp root cd s) = visited s @ [root]"
  "workpool (Random_expand_init E sp root cd s) = workpool s"
  "stackDepth (Random_expand_init E sp root cd s) = 0"
  by (simp_all add: Random_expand_init_def)

lemma subtreeTask_visits:
  assumes gen: "Generator E = tree_Generator" and nxt: "gen_next_child E = tree_next"
    and nd: "\<not> isDecision E"
    and pn: "\<And>n a r. fst (processNode E params sp n a r) = Continue"
    and h: "height root < maxStackDepth E"
    and fuel: "2 * size (task_nodes (depth_limit E params) (int cd) root) \<le> fuel"
  shows "\<exists>s' more new. subtreeTask fuel E params sp root cd s = Finished s'
      \<and> visited s' = visited s @ root # more \<and> workpool s' = workpool s @ new
      \<and> {#root#} + mset more + pool_nodes (depth_limit E params) new
          = task_nodes (depth_limit E params) (int cd) root
      \<and> (\<forall>(pid, d, n) \<in> set new. height n < maxStackDepth E)"
proof -
  let ?lim = "depth_limit E params"
  let ?sa = "s\<lparr>acc := new_Enum E, childFutures := []\<rparr>"
  let ?s0 = "Random_expand_init E sp root cd ?sa"
  have ok0: "stack_ok E params cd ?s0" using gen h by (rule init_ok)
  have t0: "{#root#} + todo ?lim cd ?s0 = task_nodes ?lim (int cd) root"
    using gen h by (rule init_ok)
  have "size {#root#} + size (todo ?lim cd ?s0) = size (task_nodes ?lim (int cd) root)"
    unfolding size_union [symmetric] t0 by (rule refl)
  then have "2 * size (todo ?lim cd ?s0) + nat (stackDepth ?s0 + 1) \<le> fuel"
    using fuel by (simp add: init_fields)
  from loop_visits [OF gen nxt nd pn ok0 this] obtain s' more new where
    run: "Random_expand_loop fuel E params sp cd ?s0 = Finished s'"
    and v: "visited s' = visited ?s0 @ more" and w: "workpool s' = workpool ?s0 @ new"
    and t: "mset more + pool_nodes ?lim new = todo ?lim cd ?s0"
    and hs: "\<forall>(pid, d, n) \<in> set new. height n < maxStackDepth E"
    by blast
  let ?s'' = "if isEnumeration E then s'\<lparr>registry := updateEnumerator E (acc s') (registry s')\<rparr> else s'"
  have "subtreeTask fuel E params sp root cd s = Finished ?s''"
    using run by (simp add: subtreeTask_def Random_expand_def)
  moreover have "visited ?s'' = visited s @ root # more"
    using v by (simp add: init_fields)
  moreover have "workpool ?s'' = workpool s @ new"
    using w by (simp add: init_fields)
  moreover have "{#root#} + mset more + pool_nodes ?lim new = task_nodes ?lim (int cd) root"
    unfolding t0 [symmetric] t [symmetric] by (simp add: ac_simps)
  ultimately show ?thesis
    using hs by (intro exI [of _ ?s''] exI [of _ more] exI [of _ new] conjI)
qed

lemma size_pool_nodes:
  "size (pool_nodes lim pool) = sum_list (map (\<lambda>(pid, d, n). size (task_nodes lim (int d) n)) pool)"
  by (induction pool) (auto simp: pool_nodes_def)

lemma size_task_nodes_pos: "0 < size (task_nodes lim e n)"
  by (cases n) (simp add: task_nodes_def)

lemma pool_member_size:
  assumes "(pid, d, n) \<in> set pool"
  shows "size (task_nodes lim (int d) n) \<le> size (pool_nodes lim pool)"
proof -
  have "(\<lambda>(pid, d, n). size (task_nodes lim (int d) n)) (pid, d, n)
      \<le> sum_list (map (\<lambda>(pid, d, n). size (task_nodes lim (int d) n)) pool)"
    using assms by (intro member_le_sum_list) (auto intro!: rev_image_eqI)
  then show ?thesis by (simp add: size_pool_nodes)
qed

lemma pool_nodes_remove:
  assumes "j < length pool" and "pool ! j = (pid, d, n)"
  shows "pool_nodes lim pool
    = task_nodes lim (int d) n + pool_nodes lim (take j pool @ drop (j + 1) pool)"
proof -
  have "pool = take j pool @ (pid, d, n) # drop (Suc j) pool"
    using id_take_nth_drop [OF assms(1)] unfolding assms(2) .
  then have "pool_nodes lim pool = pool_nodes lim (take j pool @ (pid, d, n) # drop (Suc j) pool)"
    by (rule arg_cong)
  also have "\<dots> = task_nodes lim (int d) n + pool_nodes lim (take j pool @ drop (j + 1) pool)"
    by (simp add: pool_nodes_def)
  finally show ?thesis .
qed

lemma run_tasks_visits:
  assumes gen: "Generator E = tree_Generator" and nxt: "gen_next_child E = tree_next"
    and nd: "\<not> isDecision E"
    and pn: "\<And>n a r. fst (processNode E params sp n a r) = Continue"
  shows "(\<forall>(pid, d, n) \<in> set (workpool s). height n < maxStackDepth E
        \<and> 2 * size (task_nodes (depth_limit E params) (int d) n) \<le> fuel) \<Longrightarrow>
    size (pool_nodes (depth_limit E params) (workpool s)) \<le> k \<Longrightarrow>
    \<exists>s'. run_tasks k fuel E params sp s = Finished s' \<and> workpool s' = []
      \<and> mset (visited s') = mset (visited s) + pool_nodes (depth_limit E params) (workpool s)"
proof (induction k arbitrary: s)
  case 0
  have "workpool s = []"
  proof (cases "workpool s")
    case Nil then show ?thesis .
  next
    case (Cons x xs)
    obtain pid d n where "x = (pid, d, n)" by (cases x)
    with Cons have "(pid, d, n) \<in> set (workpool s)" by simp
    from pool_member_size [OF this, of "depth_limit E params"] "0.prems"(2)
      size_task_nodes_pos [of "depth_limit E params" "int d" n]
    show ?thesis by simp
  qed
  then have "run_tasks 0 fuel E params sp s = Finished s \<and> workpool s = []
      \<and> mset (visited s) = mset (visited s) + pool_nodes (depth_limit E params) (workpool s)"
    by (simp add: pool_nodes_def)
  then show ?case by (intro exI [of _ s])
next
  case (Suc k)
  let ?lim = "depth_limit E params"
  show ?case
  proof (cases "workpool s = []")
    case True
    then have "run_tasks (Suc k) fuel E params sp s = Finished s \<and> workpool s = []
        \<and> mset (visited s) = mset (visited s) + pool_nodes ?lim (workpool s)"
      by (simp add: pool_nodes_def)
    then show ?thesis by (intro exI [of _ s])
  next
    case False
    define j where "j = choose_task E (workpool s) mod length (workpool s)"
    have j: "j < length (workpool s)" using False by (simp add: j_def)
    obtain pid d n where task: "workpool s ! j = (pid, d, n)"
      by (cases "workpool s ! j")
    define rest where "rest = take j (workpool s) @ drop (j + 1) (workpool s)"
    have mem: "(pid, d, n) \<in> set (workpool s)" using j task by (metis nth_mem)
    have hn: "height n < maxStackDepth E"
      and fn: "2 * size (task_nodes ?lim (int d) n) \<le> fuel"
      using Suc.prems(1) mem by auto
    have pr: "pool_nodes ?lim (workpool s) = task_nodes ?lim (int d) n + pool_nodes ?lim rest"
      unfolding rest_def using j task by (rule pool_nodes_remove)
    from subtreeTask_visits [OF gen nxt nd pn hn fn, of "s\<lparr>workpool := rest\<rparr>"]
    obtain s1 more new where
      run1: "subtreeTask fuel E params sp n d (s\<lparr>workpool := rest\<rparr>) = Finished s1"
      and v1: "visited s1 = visited s @ n # more" and w1: "workpool s1 = rest @ new"
      and t1: "{#n#} + mset more + pool_nodes ?lim new = task_nodes ?lim (int d) n"
      and h1: "\<forall>(pid, d, n) \<in> set new. height n < maxStackDepth E"
      by auto
    have "size {#n#} + size (mset more) + size (pool_nodes ?lim new)
        = size (task_nodes ?lim (int d) n)"
      unfolding size_union [symmetric] t1 by (rule refl)
    then have sz: "size (pool_nodes ?lim new) < size (task_nodes ?lim (int d) n)" by simp
    have rest_sub: "set rest \<subseteq> set (workpool s)"
      unfolding rest_def using set_take_subset [of j "workpool s"]
        set_drop_subset [of "j + 1" "workpool s"] by auto
    have pool1: "\<forall>(pid, d, n) \<in> set (workpool s1). height n < maxStackDepth E
        \<and> 2 * size (task_nodes ?lim (int d) n) \<le> fuel"
    proof (intro ballI, clarify)
      fix pid' d' n' assume "(pid', d', n') \<in> set (workpool s1)"
      then consider "(pid', d', n') \<in> set rest" | "(pid', d', n') \<in> set new"
        by (auto simp: w1)
      then show "height n' < maxStackDepth E \<and> 2 * size (task_nodes ?lim (int d') n') \<le> fuel"
      proof cases
        case 1
        with rest_sub have "(pid', d', n') \<in> set (workpool s)" by auto
        with Suc.prems(1) show ?thesis by auto
      next
        case 2
        from pool_member_size [OF 2, of ?lim] sz fn
        have "2 * size (task_nodes ?lim (int d') n') \<le> fuel" by simp
        moreover have "height n' < maxStackDepth E" using h1 2 by auto
        ultimately show ?thesis by simp
      qed
    qed
    have "size (pool_nodes ?lim (workpool s)) =
        size (task_nodes ?lim (int d) n) + size (pool_nodes ?lim rest)"
      unfolding pr by simp
    with Suc.prems(2) sz
    have k1: "size (pool_nodes ?lim (workpool s1)) \<le> k"
      by (simp add: w1 pool_nodes_append)
    from Suc.IH [OF pool1 k1] obtain s' where
      run: "run_tasks k fuel E params sp s1 = Finished s'" and e: "workpool s' = []"
      and v: "mset (visited s') = mset (visited s1) + pool_nodes ?lim (workpool s1)"
      by blast
    have rest_Suc: "take j (workpool s) @ drop (Suc j) (workpool s) = rest"
      by (simp add: rest_def)
    have "run_tasks (Suc k) fuel E params sp s = Finished s'"
      using False task run1 run
      by (simp add: j_def [symmetric] Let_def rest_Suc)
    moreover have "mset (visited s') = mset (visited s) + pool_nodes ?lim (workpool s)"
      unfolding v v1 w1 pr pool_nodes_append t1 [symmetric] by (simp add: ac_simps)
    ultimately show ?thesis
      using e by (intro exI [of _ s'] conjI)
  qed
qed

lemma below_None: "below None e n = nodes n"
proof (induction n arbitrary: e)
  case (Node a cs)
  have "sum_list (map (below None (e + 1)) cs) = sum_list (map nodes cs)"
    using Node.IH by (intro arg_cong [where f = sum_list] map_cong refl)
  then show ?case by simp
qed

lemma sum_list_nodes_upto_0: "sum_list (map (nodes_upto 0) cs) = {#}"
  by (induction cs) simp_all

lemma below_Some:
  "e \<le> M \<Longrightarrow> below (Some M) e n = nodes_upto (nat (M - e) + 1) n"
proof (induction n arbitrary: e)
  case (Node a cs)
  show ?case
  proof (cases "e = M")
    case True
    then show ?thesis by (simp add: sum_list_nodes_upto_0)
  next
    case False
    with Node.prems have lt: "e + 1 \<le> M" by simp
    have "sum_list (map (below (Some M) (e + 1)) cs)
        = sum_list (map (nodes_upto (nat (M - (e + 1)) + 1)) cs)"
      using Node.IH [OF _ lt] by (intro arg_cong [where f = sum_list] map_cong refl)
    moreover have "nat (M - e) = Suc (nat (M - (e + 1)))" using lt by simp
    ultimately show ?thesis using False by simp
  qed
qed

lemma below_None_fun: "below None e = nodes"
  by (rule ext) (rule below_None)

lemma task_nodes_unbounded: "task_nodes None e n = nodes n"
  by (cases n) (simp add: task_nodes_def below_None_fun)

lemma task_nodes_bounded:
  assumes "2 \<le> m"
  shows "task_nodes (Some (int m)) 1 n = nodes_upto m n"
proof -
  obtain a cs where n: "n = Node a cs" by (cases n)
  have le: "(1::int) + 1 \<le> int m" using assms by simp
  have "map (below (Some (int m)) (1 + 1)) cs = map (nodes_upto (nat (int m - (1 + 1)) + 1)) cs"
    using below_Some [OF le] by (intro map_cong refl)
  moreover have "m = Suc (nat (int m - (1 + 1)) + 1)" using assms by simp
  ultimately show ?thesis unfolding n task_nodes_def
    by (metis nodes_upto.simps(2) tree.case)
qed

lemma below_never:
  "M < e \<Longrightarrow> below (Some M) e n = nodes n"
proof (induction n arbitrary: e)
  case (Node a cs)
  have "sum_list (map (below (Some M) (e + 1)) cs) = sum_list (map nodes cs)"
    using Node.IH Node.prems by (intro arg_cong [where f = sum_list] map_cong refl) simp
  then show ?case using Node.prems by simp
qed

lemma task_nodes_low_limit:
  assumes "m < 2"
  shows "task_nodes (Some (int m)) 1 n = nodes n"
proof -
  obtain a cs where n: "n = Node a cs" by (cases n)
  have lt: "int m < 1 + 1" using assms by simp
  have "sum_list (map (below (Some (int m)) (1 + 1)) cs) = sum_list (map nodes cs)"
    using below_never [OF lt] by (intro arg_cong [where f = sum_list] map_cong refl)
  then show ?thesis unfolding n by (simp add: task_nodes_def)
qed

lemma sum_list_mset_mono:
  "(\<And>x. x \<in> set xs \<Longrightarrow> f x \<subseteq># g x) \<Longrightarrow>
    sum_list (map f xs) \<subseteq># (sum_list (map g xs) :: 'b multiset)"
  by (induction xs) (auto intro: subset_mset.add_mono)

lemma nodes_upto_subset: "nodes_upto k n \<subseteq># nodes n"
proof (induction k n rule: nodes_upto.induct)
  case (1 t)
  show ?case by simp
next
  case (2 k a cs)
  have "sum_list (map (nodes_upto k) cs) \<subseteq># sum_list (map nodes cs)"
    using 2 by (rule sum_list_mset_mono)
  then show ?case by simp
qed

lemma task_nodes_root: "task_nodes (depth_limit E params) 1 root = reached E params root"
  by (simp add: depth_limit_def reached_def task_nodes_unbounded task_nodes_bounded
      task_nodes_low_limit)

lemma reached_size: "size (reached E params root) \<le> size (nodes root)"
  by (simp add: reached_def size_mset_mono nodes_upto_subset)

text \<open>
  \<^verbatim>\<open>expand\<close> stores the child it moves into in \<^verbatim>\<open>genStack[stackDepth + 1]\<close>, and the vector
  has \<^verbatim>\<open>maxStackDepth\<close> frames: on the chain of five nodes with four frames the task of the
  root indexes the vector at 4.
\<close>

lemma example_chain_overflows_stack:
  "height example_chain = maxStackDepth example_RandomEnv
   \<and> search_tasks 1 10 example_RandomEnv \<lparr>maxDepth = 0, spawnProbability = 0\<rparr> ()
        example_chain example_start = Undefined_behaviour"
  by code_simp

text \<open>
  The tasks share out the tree. On a finite tree whose height is below \<^verbatim>\<open>maxStackDepth\<close>,
  with a \<^verbatim>\<open>processNode\<close> that always answers \<^verbatim>\<open>Continue\<close> and whatever \<^verbatim>\<open>rand()\<close>
  returns, the search that starts with an empty workpool runs all its tasks to the end, and
  every node \<open>reached\<close> is taken once by one task: either as the root of that task, or as
  the child that the task hands to \<^verbatim>\<open>processNode\<close> and moves into. \<open>visited\<close> lists both
  kinds; the root of a task is not handed to \<^verbatim>\<open>processNode\<close>. The scheduler gets as many
  task runs as the tree has nodes, and each task two iterations for each node.
\<close>

lemma search_takes_each_node_once:
  assumes gen: "Generator E = tree_Generator" and nxt: "gen_next_child E = tree_next"
    and nd: "\<not> isDecision E"
    and pn: "\<And>n a r. fst (processNode E params sp n a r) = Continue"
    and h: "height root < maxStackDepth E"
    and e: "workpool s = []"
    and k: "size (nodes root) \<le> k" and fuel: "2 * size (nodes root) \<le> fuel"
  shows "\<exists>s'. search_tasks k fuel E params sp root s = Finished s' \<and> workpool s' = []
    \<and> mset (visited s') = mset (visited s) + reached E params root"
proof -
  let ?lim = "depth_limit E params"
  let ?s1 = "snd (createTask 1 root s)"
  have w: "workpool ?s1 = [(next_promise s, 1, root)]" and v: "visited ?s1 = visited s"
    using e by (simp_all add: createTask_def)
  have p: "pool_nodes ?lim (workpool ?s1) = reached E params root"
    unfolding w by (simp add: pool_nodes_def task_nodes_root)
  have sz: "size (reached E params root) \<le> k" "2 * size (reached E params root) \<le> fuel"
    using reached_size [of E params root] k fuel by simp_all
  have a: "\<forall>(pid, d, n) \<in> set (workpool ?s1). height n < maxStackDepth E
      \<and> 2 * size (task_nodes ?lim (int d) n) \<le> fuel"
    unfolding w using h sz by (simp add: task_nodes_root)
  have b: "size (pool_nodes ?lim (workpool ?s1)) \<le> k"
    unfolding p by (rule sz)
  from run_tasks_visits [OF gen nxt nd pn a b] show ?thesis
    unfolding search_tasks_def p v .
qed

text \<open>
  The depth limit on the example tree, without spawning: with \<^verbatim>\<open>maxDepth\<close> 2 the node 4,
  at depth 3, is not taken; with \<^verbatim>\<open>maxDepth\<close> 1 no comparison succeeds and it is.
\<close>

lemma example_depth_limit:
  "(case search_tasks 5 10 (example_RandomEnv\<lparr>isDepthBounded := True\<rparr>)
           \<lparr>maxDepth = 2, spawnProbability = 0\<rparr> () example_tree example_start of
      Finished s \<Rightarrow> Some (visited s) | Undefined_behaviour \<Rightarrow> None | Out_of_fuel \<Rightarrow> None)
     = Some [example_tree, Node 1 [Node 4 []], Node 2 [], Node 3 []]
   \<and> (case search_tasks 5 10 (example_RandomEnv\<lparr>isDepthBounded := True\<rparr>)
           \<lparr>maxDepth = 1, spawnProbability = 0\<rparr> () example_tree example_start of
      Finished s \<Rightarrow> Some (visited s) | Undefined_behaviour \<Rightarrow> None | Out_of_fuel \<Rightarrow> None)
     = Some [example_tree, Node 1 [Node 4 []], Node 4 [], Node 2 [], Node 3 []]"
  by code_simp

text \<open>
  For the evaluations below, the spawn test on integers: the same draw and the same
  comparison, without the detour through unary numbers.
\<close>

lemma spawn_fires_int [code]:
  "spawn_fires E params k =
     ((int (rand E k) * 2 ^ 15 + int (rand E (k + 1))) mod 2 ^ 32
        < 1073741824 div int (spawnProbability params))"
proof -
  have "int (spawn_draw E k) = (int (rand E k) * 2 ^ 15 + int (rand E (k + 1))) mod 2 ^ 32"
    by (simp add: spawn_draw_def zmod_int)
  moreover have "int (1073741824 div spawnProbability params)
      = 1073741824 div int (spawnProbability params)"
    by (simp add: zdiv_int)
  ultimately show ?thesis
    unfolding spawn_fires_def by (metis of_nat_less_iff)
qed


section \<open>The completion promise and the futures of the children\<close>

text \<open>
  The continuation of \<^verbatim>\<open>Random::subtreeTask\<close> is in one of three states: before the wait,
  between the wait and \<^verbatim>\<open>set_value\<close>, or at its end. Nobody else sets its promise.
\<close>

lemma continuation_tick:
  assumes "c \<noteq> Child_done p"
    and "(stmts t = [Wait_all futs, Set_value p] \<and> p \<notin> set (ready t))
       \<or> (stmts t = [Set_value p] \<and> p \<notin> set (ready t) \<and> set futs \<subseteq> set (ready t))
       \<or> (stmts t = [] \<and> set futs \<subseteq> set (ready t))"
  shows "(stmts (tick c t) = [Wait_all futs, Set_value p] \<and> p \<notin> set (ready (tick c t)))
       \<or> (stmts (tick c t) = [Set_value p] \<and> p \<notin> set (ready (tick c t))
            \<and> set futs \<subseteq> set (ready (tick c t)))
       \<or> (stmts (tick c t) = [] \<and> set futs \<subseteq> set (ready (tick c t)))"
  using assms by (cases c) (auto split: if_splits)

lemma continuation_run:
  assumes "Child_done p \<notin> set ticks"
    and "(stmts t = [Wait_all futs, Set_value p] \<and> p \<notin> set (ready t))
       \<or> (stmts t = [Set_value p] \<and> p \<notin> set (ready t) \<and> set futs \<subseteq> set (ready t))
       \<or> (stmts t = [] \<and> set futs \<subseteq> set (ready t))"
  shows "(stmts (run_schedule ticks t) = [Wait_all futs, Set_value p]
            \<and> p \<notin> set (ready (run_schedule ticks t)))
       \<or> (stmts (run_schedule ticks t) = [Set_value p] \<and> p \<notin> set (ready (run_schedule ticks t))
            \<and> set futs \<subseteq> set (ready (run_schedule ticks t)))
       \<or> (stmts (run_schedule ticks t) = [] \<and> set futs \<subseteq> set (ready (run_schedule ticks t)))"
  using assms
proof (induction ticks arbitrary: t)
  case Nil
  then show ?case by (simp add: run_schedule_def)
next
  case (Cons c ticks)
  from Cons.prems(1) have c: "c \<noteq> Child_done p" and r: "Child_done p \<notin> set ticks" by auto
  have "run_schedule (c # ticks) t = run_schedule ticks (tick c t)"
    by (simp add: run_schedule_def)
  with Cons.IH [OF r continuation_tick [OF c Cons.prems(2)]] show ?case by simp
qed

text \<open>
  The Random skeleton: under every schedule, once the promise of a task is set, the futures
  of all tasks that the task has created are ready.
\<close>

lemma subtreeTask_promise_after_children:
  assumes body: "subtreeTask_continuation fuel E params sp taskRoot cd pid s = Finished body"
    and other: "Child_done pid \<notin> set ticks"
    and fired: "pid \<in> set (ready (run_schedule ticks (start_thread body)))"
  shows "\<exists>s'. subtreeTask fuel E params sp taskRoot cd s = Finished s'
    \<and> set (childFutures s') \<subseteq> set (ready (run_schedule ticks (start_thread body)))"
proof -
  from body obtain s' where run: "subtreeTask fuel E params sp taskRoot cd s = Finished s'"
    and b: "body = [Wait_all (childFutures s'), Set_value pid]"
    by (auto simp: subtreeTask_continuation_def split: Run.splits)
  have "stmts (start_thread body) = [Wait_all (childFutures s'), Set_value pid]
      \<and> pid \<notin> set (ready (start_thread body))"
    by (simp add: start_thread_def b)
  then have "(stmts (start_thread body) = [Wait_all (childFutures s'), Set_value pid]
        \<and> pid \<notin> set (ready (start_thread body)))
      \<or> (stmts (start_thread body) = [Set_value pid] \<and> pid \<notin> set (ready (start_thread body))
        \<and> set (childFutures s') \<subseteq> set (ready (start_thread body)))
      \<or> (stmts (start_thread body) = []
        \<and> set (childFutures s') \<subseteq> set (ready (start_thread body)))"
    by (rule disjI1)
  from continuation_run [OF other this] fired
  have "set (childFutures s') \<subseteq> set (ready (run_schedule ticks (start_thread body)))"
    by blast
  with run show ?thesis by (intro exI [of _ s'] conjI)
qed

text \<open>
  Claim C1, the promise of a task is set only after the futures of all its children are
  ready, does not hold of \<^verbatim>\<open>searchChildTask\<close>: the task on the path \<open>[0]\<close> of the example,
  whose position index holds the future 7 of a stolen child, sets its promise 3 with its
  first statement after \<^verbatim>\<open>expand\<close>, while the future 7 is not ready, and waits for it last.
\<close>

theorem searchChildTask_sets_promise_before_children:
  "searchChildTask example_IndexedEnv () False 20 (4, 1) [0] (\<lambda>pos. [7]) 3 0
      (example_IState\<lparr>entered := []\<rparr>)
     = Some (example_IState\<lparr>ipos := \<lparr>idx_path = [0], idx_levels = [(2, 2)]\<rparr>\<rparr>,
             [Set_value 3, Done_action 0, Semaphore_signal, Wait_all [7]])
   \<and> run_schedule [Step] (start_thread [Set_value 3, Done_action 0, Semaphore_signal, Wait_all [7]])
     = \<lparr>stmts = [Done_action 0, Semaphore_signal, Wait_all [7]], ready = [3],
         done_tasks = [], signals = 0\<rparr>
   \<and> 3 \<in> set (ready (run_schedule [Step]
         (start_thread [Set_value 3, Done_action 0, Semaphore_signal, Wait_all [7]])))
   \<and> 7 \<notin> set (ready (run_schedule [Step]
         (start_thread [Set_value 3, Done_action 0, Semaphore_signal, Wait_all [7]])))"
  by code_simp

end
